theory Spec2Isabelle
  imports Complex_Main
begin

section \<open>Numbers, points and the gl-matrix primitives\<close>

text \<open>
  The curve evaluators of the repository work on \<^verbatim>\<open>vec3\<close> values of the gl-matrix
  library: arrays of three numbers. A JavaScript number is modelled as a \<^typ>\<open>real\<close>:
  rounding to doubles, infinities and not-a-number values are outside the model. The
  vectors that gl-matrix allocates are \<^verbatim>\<open>Float32Array\<close>s, whose elements hold
  single-precision numbers. The first model of each evaluator leaves that rounding out
  too, so its statements are ones of exact real arithmetic; for \<^verbatim>\<open>adaptiveSubdivision\<close>,
  whose loop is left or not depending on the rounding, a model with the single-precision
  stores follows the first.

  The library itself is not part of the repository; \<^verbatim>\<open>vec3.clone\<close>, \<^verbatim>\<open>vec3.lerp\<close> and
  \<^verbatim>\<open>vec3.dist\<close> are modelled as the library documents them. In the first model below a
  point is its value, and a write into \<^verbatim>\<open>points[i]\<close> is an update of the list \<open>points\<close>;
  the second model keeps the objects apart from their values.
\<close>

datatype vec3 = Vec3 real real real

fun vx :: "vec3 \<Rightarrow> real" where "vx (Vec3 a b c) = a"
fun vy :: "vec3 \<Rightarrow> real" where "vy (Vec3 a b c) = b"
fun vz :: "vec3 \<Rightarrow> real" where "vz (Vec3 a b c) = c"

text \<open>\<^verbatim>\<open>vec3.clone(a)\<close>: a fresh array with the components of \<open>a\<close>.\<close>

fun vec3_clone :: "vec3 \<Rightarrow> vec3" where
  "vec3_clone (Vec3 a b c) = Vec3 a b c"

text \<open>
  \<^verbatim>\<open>vec3.lerp(out, a, b, t)\<close> of gl-matrix reads the components of \<open>a\<close> first and then
  writes \<^verbatim>\<open>out[k] = a[k] + t * (b[k] - a[k])\<close>, so that \<open>out\<close> may be \<open>a\<close> itself.
\<close>

fun vec3_lerp :: "vec3 \<Rightarrow> vec3 \<Rightarrow> real \<Rightarrow> vec3" where
  "vec3_lerp (Vec3 ax ay az) (Vec3 bx by bz) t =
     Vec3 (ax + t * (bx - ax)) (ay + t * (by - ay)) (az + t * (bz - az))"

text \<open>\<^verbatim>\<open>vec3.dist(a, b)\<close>: the Euclidean distance.\<close>

fun vec3_dist :: "vec3 \<Rightarrow> vec3 \<Rightarrow> real" where
  "vec3_dist (Vec3 ax ay az) (Vec3 bx by bz) =
     sqrt ((bx - ax) * (bx - ax) + (by - ay) * (by - ay) + (bz - az) * (bz - az))"

text \<open>The exception thrown by \<^verbatim>\<open>throw new Error(msg)\<close>.\<close>

datatype error = Error string

section \<open>The Bezier evaluator\<close>

text \<open>
  The inner loop
  \<^verbatim>\<open>for (let i = 0; i < bound; i++) vec3.lerp(points[i], points[i], points[i + 1], t);\<close>
  overwrites the working array from the left. Its bound is \<^verbatim>\<open>points.length - 1\<close> in
  \<^verbatim>\<open>evaluateBezierCurve\<close>, \<^verbatim>\<open>adaptiveSubdivision\<close> and \<^verbatim>\<open>uniformBSpline\<close>, and
  \<^verbatim>\<open>points.length - 2\<close> in \<^verbatim>\<open>quadraticUniformBSpline\<close>; the body does not change it, and
  with either bound every read \<^verbatim>\<open>points[i + 1]\<close> is inside the array.
\<close>

function lerp_loop :: "real \<Rightarrow> nat \<Rightarrow> nat \<Rightarrow> vec3 list \<Rightarrow> vec3 list" where
  "lerp_loop t bound i points =
     (if i < bound
      then lerp_loop t bound (Suc i) (points[i := vec3_lerp (points ! i) (points ! (i + 1)) t])
      else points)"
  by pat_completeness auto
termination
  by (relation "measure (\<lambda>(t, bound, i, points). bound - i)") auto

declare lerp_loop.simps [simp del]

text \<open>
  \<^verbatim>\<open>while (points.length > 1) { for ...; points.pop(); }\<close>
\<close>

function bezier_reduce :: "real \<Rightarrow> vec3 list \<Rightarrow> vec3 list" where
  "bezier_reduce t points =
     (if length points > 1
      then bezier_reduce t (butlast (lerp_loop t (length points - 1) 0 points))
      else points)"
  by pat_completeness auto
termination
proof (relation "measure (\<lambda>(t, points). length points)")
  show "wf (measure (\<lambda>(t, points). length points))" by simp
next
  fix t :: real and points :: "vec3 list"
  assume "1 < length points"
  have "length (lerp_loop s b i xs) = length xs" for s b i xs
    by (induction s b i xs rule: lerp_loop.induct) (subst lerp_loop.simps, simp)
  with \<open>1 < length points\<close>
  show "((t, butlast (lerp_loop t (length points - 1) 0 points)), (t, points))
          \<in> measure (\<lambda>(t, points). length points)"
    by simp
qed

declare bezier_reduce.simps [simp del]

text \<open>
  \<^verbatim>\<open>for (const t of ts) { let points = ps.map(vec3.clone); ...; result.push(points[0]); }\<close>
\<close>

definition evaluateBezierCurve :: "vec3 list \<Rightarrow> real list \<Rightarrow> error + vec3 list" where
  "evaluateBezierCurve ps ts =
     (if length ps < 2 then Inl (Error ''At least 2 control points are required'')
      else Inr (map (\<lambda>t. bezier_reduce t (map vec3_clone ps) ! 0) ts))"

section \<open>Adaptive subdivision\<close>

text \<open>
  \<^verbatim>\<open>for (let i = 0; i < top.length - 1; i++) lp += vec3.dist(top[i], top[i + 1]);\<close>
  The variables \<^verbatim>\<open>top\<close> and \<^verbatim>\<open>last\<close> of the source are \<open>top'\<close> and \<open>last'\<close> here, since HOL has
  constants of those names.
\<close>

function lp_loop :: "vec3 list \<Rightarrow> nat \<Rightarrow> real \<Rightarrow> real" where
  "lp_loop top' i lp =
     (if i < length top' - 1
      then lp_loop top' (Suc i) (lp + vec3_dist (top' ! i) (top' ! (i + 1)))
      else lp)"
  by pat_completeness auto
termination
  by (relation "measure (\<lambda>(top', i, lp). length top' - 1 - i)") auto

declare lp_loop.simps [simp del]

text \<open>
  The bisection at \<open>t = 0.5\<close>: the working array is reduced as in the evaluator, and after
  each round its first point is pushed on \<open>p1s\<close> and its last point on \<open>p2s\<close>.
\<close>

function bisect_loop :: "vec3 list \<Rightarrow> vec3 list \<Rightarrow> vec3 list \<Rightarrow> vec3 list \<times> vec3 list" where
  "bisect_loop points p1s p2s =
     (if length points > 1
      then (let points' = butlast (lerp_loop (1 / 2) (length points - 1) 0 points)
            in bisect_loop points'
                 (p1s @ [vec3_clone (points' ! 0)])
                 (p2s @ [vec3_clone (points' ! (length points' - 1))]))
      else (p1s, p2s))"
  by pat_completeness auto
termination
proof (relation "measure (\<lambda>(points, p1s, p2s). length points)")
  show "wf (measure (\<lambda>(points, p1s, p2s). length points))" by simp
next
  fix points p1s p2s points' :: "vec3 list"
  assume "1 < length points"
    and "points' = butlast (lerp_loop (1 / 2) (length points - 1) 0 points)"
  moreover have "length (lerp_loop s b i xs) = length xs" for s b i xs
    by (induction s b i xs rule: lerp_loop.induct) (subst lerp_loop.simps, simp)
  ultimately
  show "((points', p1s @ [vec3_clone (points' ! 0)],
          p2s @ [vec3_clone (points' ! (length points' - 1))]), (points, p1s, p2s))
          \<in> measure (\<lambda>(points, p1s, p2s). length points)"
    by simp
qed

declare bisect_loop.simps [simp del]

text \<open>
  One iteration of \<^verbatim>\<open>while (stack.length > 0)\<close> after \<^verbatim>\<open>const top = stack.pop()!\<close>.
  The work stack is a list whose head is the top of the JavaScript stack, so
  \<^verbatim>\<open>stack.push(p2s.reverse()); stack.push(p1s);\<close> puts \<open>p1s\<close> in front of the reversed
  \<open>p2s\<close>. The result is the exception, or the stack and the output after the iteration.
\<close>

definition subdivision_body ::
  "vec3 list \<Rightarrow> vec3 list list \<Rightarrow> vec3 list \<Rightarrow> error + (vec3 list list \<times> vec3 list)" where
  "subdivision_body top' stack out =
     (if length top' < 2 then Inl (Error ''At least 2 control points are required'')
      else if length top' = 2 then Inr (stack, out @ [top' ! 1])
      else
        let last' = top' ! (length top' - 1);
            lp = lp_loop top' 0 0;
            lc = vec3_dist (top' ! 0) last';
            n = length top' - 1
        in if (real n - 1) / (real n + 1) * (lp - lc) > 1 / 100000
           then (case bisect_loop (map vec3_clone top') [vec3_clone (top' ! 0)] [vec3_clone last'] of
                   (p1s, p2s) \<Rightarrow> Inr (p1s # rev p2s # stack, out))
           else Inr (stack, out @ [last']))"

text \<open>
  The source gives the loop no iteration bound, so it is a partial function: \<open>None\<close> is
  a run that never leaves the loop.
\<close>

partial_function (option) subdivision_loop ::
  "vec3 list list \<Rightarrow> vec3 list \<Rightarrow> (error + vec3 list) option" where
  "subdivision_loop stack out =
     (case stack of
        [] \<Rightarrow> Some (Inr out)
      | top' # rest \<Rightarrow>
          (case subdivision_body top' rest out of
             Inl e \<Rightarrow> Some (Inl e)
           | Inr (stack', out') \<Rightarrow> subdivision_loop stack' out'))"

definition adaptiveSubdivision :: "vec3 list \<Rightarrow> (error + vec3 list) option" where
  "adaptiveSubdivision ps =
     (if length ps < 2 then Some (Inl (Error ''At least 2 control points are required''))
      else if length ps = 2 then Some (Inr (map vec3_clone ps))
      else subdivision_loop [ps] [vec3_clone (ps ! 0)])"

section \<open>Adaptive subdivision with single-precision stores\<close>

text \<open>
  gl-matrix allocates every vector it creates as a \<^verbatim>\<open>Float32Array\<close>, so the points that
  \<^verbatim>\<open>vec3.clone\<close> returns and the points that \<^verbatim>\<open>vec3.lerp\<close> writes hold single-precision
  numbers: a store rounds its value to the nearest number with a significand of 24 bits,
  a tie to the one with the even significand. Whether the work-stack loop of
  \<^verbatim>\<open>adaptiveSubdivision\<close> is left depends on that rounding, so the function is modelled a
  second time, with the stores rounded. The control points are read as they are given,
  the arithmetic between two stores stays exact, and a store that overflows to an
  infinity is outside the model.
\<close>

text \<open>The nearest integer, a tie going to the even one.\<close>

definition round_even :: "real \<Rightarrow> int" where
  "round_even y =
     (let f = \<lfloor>y\<rfloor>; d = y - of_int f
      in if d < 1 / 2 then f else if d > 1 / 2 then f + 1 else if even f then f else f + 1)"

text \<open>
  The number that an element of a \<^verbatim>\<open>Float32Array\<close> keeps of \<open>x\<close> (\<^verbatim>\<open>Math.fround(x)\<close>): with
  \<open>e\<close> the binary exponent of \<open>x\<close>, and \<open>-126\<close> for the numbers below the normal range, the
  multiple of \<open>2 ^ (e - 23)\<close> nearest to \<open>x\<close>.
\<close>

definition fround :: "real \<Rightarrow> real" where
  "fround x =
     (if x = 0 then 0
      else let e = max \<lfloor>log 2 \<bar>x\<bar>\<rfloor> (- 126);
               u = 2 powr (of_int e - 23)
           in u * of_int (round_even (x / u)))"


text \<open>
  \<^verbatim>\<open>vec3.lerp(out, a, b, t)\<close> where \<open>out\<close> is a \<^verbatim>\<open>Float32Array\<close>, as every point of the working
  array is.
\<close>

fun vec3_lerp_f32 :: "vec3 \<Rightarrow> vec3 \<Rightarrow> real \<Rightarrow> vec3" where
  "vec3_lerp_f32 (Vec3 ax ay az) (Vec3 bx by bz) t =
     Vec3 (fround (ax + t * (bx - ax))) (fround (ay + t * (by - ay)))
          (fround (az + t * (bz - az)))"

function lerp_loop_f32 :: "real \<Rightarrow> nat \<Rightarrow> nat \<Rightarrow> vec3 list \<Rightarrow> vec3 list" where
  "lerp_loop_f32 t bound i points =
     (if i < bound
      then lerp_loop_f32 t bound (Suc i)
             (points[i := vec3_lerp_f32 (points ! i) (points ! (i + 1)) t])
      else points)"
  by pat_completeness auto
termination
  by (relation "measure (\<lambda>(t, bound, i, points). bound - i)") auto

declare lerp_loop_f32.simps [simp del]








section \<open>B-spline evaluators\<close>

function uniform_reduce :: "real \<Rightarrow> vec3 list \<Rightarrow> vec3 list" where
  "uniform_reduce t points =
     (if length points > 1
      then uniform_reduce t (butlast (lerp_loop t (length points - 1) 0 points))
      else points)"
  by pat_completeness auto
termination
proof (relation "measure (\<lambda>(t, points). length points)")
  show "wf (measure (\<lambda>(t, points). length points))" by simp
next
  fix t :: real and points :: "vec3 list"
  assume "1 < length points"
  have "length (lerp_loop s b i xs) = length xs" for s b i xs
    by (induction s b i xs rule: lerp_loop.induct) (subst lerp_loop.simps, simp)
  with \<open>1 < length points\<close>
  show "((t, butlast (lerp_loop t (length points - 1) 0 points)), (t, points))
          \<in> measure (\<lambda>(t, points). length points)"
    by simp
qed

declare uniform_reduce.simps [simp del]

definition uniformBSpline :: "vec3 list \<Rightarrow> real list \<Rightarrow> error + vec3 list" where
  "uniformBSpline ps ts =
     (if length ps < 2 then Inl (Error ''At least 2 control points are required'')
      else Inr (map (\<lambda>t. uniform_reduce t (map vec3_clone ps) ! 0) ts))"

text \<open>
  \<^verbatim>\<open>while (points.length > 2) { for (let i = 0; i < points.length - 2; i++) ...; points.pop(); }\<close>
\<close>

function quadratic_reduce :: "real \<Rightarrow> vec3 list \<Rightarrow> vec3 list" where
  "quadratic_reduce t points =
     (if length points > 2
      then quadratic_reduce t (butlast (lerp_loop t (length points - 2) 0 points))
      else points)"
  by pat_completeness auto
termination
proof (relation "measure (\<lambda>(t, points). length points)")
  show "wf (measure (\<lambda>(t, points). length points))" by simp
next
  fix t :: real and points :: "vec3 list"
  assume "2 < length points"
  have "length (lerp_loop s b i xs) = length xs" for s b i xs
    by (induction s b i xs rule: lerp_loop.induct) (subst lerp_loop.simps, simp)
  with \<open>2 < length points\<close>
  show "((t, butlast (lerp_loop t (length points - 2) 0 points)), (t, points))
          \<in> measure (\<lambda>(t, points). length points)"
    by simp
qed

declare quadratic_reduce.simps [simp del]

definition quadraticUniformBSpline :: "vec3 list \<Rightarrow> real list \<Rightarrow> error + vec3 list" where
  "quadraticUniformBSpline ps ts =
     (if length ps < 3 then Inl (Error ''At least 3 control points are required'')
      else Inr (map (\<lambda>t. quadratic_reduce t (map vec3_clone ps) ! 1) ts))"

section \<open>Catmull-Rom splines\<close>

record knot_parametrization =
  uniform :: bool
  chordal :: bool
  centripetal :: bool

record catmull_rom_result =
  uniformResult :: "vec3 list"
  chordalResult :: "vec3 list"
  centripetalResult :: "vec3 list"

text \<open>
  The operator \<^verbatim>\<open>x ** alpha\<close> on a distance \<open>x \<ge> 0\<close> and an exponent \<open>alpha \<ge> 0\<close>:
  JavaScript gives 1 for the exponent 0 whatever \<open>x\<close> is, where \<open>0 powr 0\<close> is 0.
\<close>

definition js_pow :: "real \<Rightarrow> real \<Rightarrow> real" where
  "js_pow x alpha = (if alpha = 0 then 1 else x powr alpha)"

text \<open>
  \<^verbatim>\<open>for (let i = 0; i <= 20; ++ i) { const t = i / 20; ...; result.push(vec3.fromValues(x, y, z)); }\<close>
\<close>

function sample_loop :: "vec3 \<Rightarrow> vec3 \<Rightarrow> vec3 \<Rightarrow> vec3 \<Rightarrow> nat \<Rightarrow> vec3 list \<Rightarrow> vec3 list" where
  "sample_loop a b c d i result =
     (if i \<le> 20
      then (let t = real i / 20;
                x = ((vx a * t + vx b) * t + vx c) * t + vx d;
                y = ((vy a * t + vy b) * t + vy c) * t + vy d;
                z = ((vz a * t + vz b) * t + vz c) * t + vz d
            in sample_loop a b c d (Suc i) (result @ [Vec3 x y z]))
      else result)"
  by pat_completeness auto
termination
  by (relation "measure (\<lambda>(a, b, c, d, i, result). 21 - i)") auto

declare sample_loop.simps [simp del]

text \<open>
  The tangents \<open>m1\<close> and \<open>m2\<close> and the coefficients \<open>a\<close> and \<open>b\<close> of the cubic, each
  assigned component by component in the source:
  \<^verbatim>\<open>m1[0] = (1 - tension) * (p2[0] - p1[0] + t12 * ((p1[0] - p0[0]) / t01 - (p2[0] - p0[0]) / (t01 + t12)));\<close>
  \<^verbatim>\<open>m2[0] = (1 - tension) * (p2[0] - p1[0] + t12 * ((p3[0] - p2[0]) / t23 - (p3[0] - p1[0]) / (t23 + t12)));\<close>
  \<^verbatim>\<open>a[0] = 2 * (p1[0] - p2[0]) + m1[0] + m2[0];\<close>
  \<^verbatim>\<open>b[0] = -3 * (p1[0] - p2[0]) - 2 * m1[0] - m2[0];\<close>
  A division by zero (coincident control points with a non-zero \<open>alpha\<close>) yields
  infinities or not-a-number values in JavaScript and 0 in HOL; the model says nothing
  faithful about the sample values of such a window.
\<close>

definition tangent_m1 :: "real \<Rightarrow> real \<Rightarrow> real \<Rightarrow> vec3 \<Rightarrow> vec3 \<Rightarrow> vec3 \<Rightarrow> vec3" where
  "tangent_m1 tension t01 t12 p0 p1 p2 = Vec3
     ((1 - tension) * (vx p2 - vx p1 + t12 * ((vx p1 - vx p0) / t01 - (vx p2 - vx p0) / (t01 + t12))))
     ((1 - tension) * (vy p2 - vy p1 + t12 * ((vy p1 - vy p0) / t01 - (vy p2 - vy p0) / (t01 + t12))))
     ((1 - tension) * (vz p2 - vz p1 + t12 * ((vz p1 - vz p0) / t01 - (vz p2 - vz p0) / (t01 + t12))))"

definition tangent_m2 :: "real \<Rightarrow> real \<Rightarrow> real \<Rightarrow> vec3 \<Rightarrow> vec3 \<Rightarrow> vec3 \<Rightarrow> vec3" where
  "tangent_m2 tension t12 t23 p1 p2 p3 = Vec3
     ((1 - tension) * (vx p2 - vx p1 + t12 * ((vx p3 - vx p2) / t23 - (vx p3 - vx p1) / (t23 + t12))))
     ((1 - tension) * (vy p2 - vy p1 + t12 * ((vy p3 - vy p2) / t23 - (vy p3 - vy p1) / (t23 + t12))))
     ((1 - tension) * (vz p2 - vz p1 + t12 * ((vz p3 - vz p2) / t23 - (vz p3 - vz p1) / (t23 + t12))))"

definition coefficient_a :: "vec3 \<Rightarrow> vec3 \<Rightarrow> vec3 \<Rightarrow> vec3 \<Rightarrow> vec3" where
  "coefficient_a p1 p2 m1 m2 = Vec3
     (2 * (vx p1 - vx p2) + vx m1 + vx m2)
     (2 * (vy p1 - vy p2) + vy m1 + vy m2)
     (2 * (vz p1 - vz p2) + vz m1 + vz m2)"

definition coefficient_b :: "vec3 \<Rightarrow> vec3 \<Rightarrow> vec3 \<Rightarrow> vec3 \<Rightarrow> vec3" where
  "coefficient_b p1 p2 m1 m2 = Vec3
     (- 3 * (vx p1 - vx p2) - 2 * vx m1 - vx m2)
     (- 3 * (vy p1 - vy p2) - 2 * vy m1 - vy m2)
     (- 3 * (vz p1 - vz p2) - 2 * vz m1 - vz m2)"

text \<open>
  The body of \<^verbatim>\<open>for (let k = 0; k < ps.length - 3; k++)\<close> up to the coefficients of the
  cubic, with \<^verbatim>\<open>c = m1\<close> and \<^verbatim>\<open>d = p1\<close>.
\<close>

definition segment_coefficients ::
  "vec3 list \<Rightarrow> real \<Rightarrow> real \<Rightarrow> nat \<Rightarrow> vec3 \<times> vec3 \<times> vec3 \<times> vec3" where
  "segment_coefficients ps alpha tension k =
     (let p0 = ps ! k; p1 = ps ! (k + 1); p2 = ps ! (k + 2); p3 = ps ! (k + 3);
          t01 = js_pow (vec3_dist p0 p1) alpha;
          t12 = js_pow (vec3_dist p1 p2) alpha;
          t23 = js_pow (vec3_dist p2 p3) alpha;
          m1 = tangent_m1 tension t01 t12 p0 p1 p2;
          m2 = tangent_m2 tension t12 t23 p1 p2 p3;
          a = coefficient_a p1 p2 m1 m2;
          b = coefficient_b p1 p2 m1 m2;
          c = m1;
          d = p1
      in (a, b, c, d))"

function catmull_loop :: "vec3 list \<Rightarrow> real \<Rightarrow> real \<Rightarrow> nat \<Rightarrow> vec3 list \<Rightarrow> vec3 list" where
  "catmull_loop ps alpha tension k result =
     (if k < length ps - 3
      then (case segment_coefficients ps alpha tension k of
              (a, b, c, d) \<Rightarrow> catmull_loop ps alpha tension (Suc k) (sample_loop a b c d 0 result))
      else result)"
  by pat_completeness auto
termination
  by (relation "measure (\<lambda>(ps, alpha, tension, k, result). length ps - 3 - k)") auto

declare catmull_loop.simps [simp del]

definition catmullRomImpl :: "vec3 list \<Rightarrow> real \<Rightarrow> real \<Rightarrow> vec3 list" where
  "catmullRomImpl ps alpha tension = catmull_loop ps alpha tension 0 []"

definition cubicCatmullRomSpline ::
  "vec3 list \<Rightarrow> knot_parametrization \<Rightarrow> error + catmull_rom_result" where
  "cubicCatmullRomSpline ps knotParametrization =
     (if length ps < 4 then Inl (Error ''At least 4 control points are required'')
      else Inr \<lparr>
        uniformResult =
          (if uniform knotParametrization then [] @ catmullRomImpl ps 0 0 else []),
        chordalResult =
          (if chordal knotParametrization then [] @ catmullRomImpl ps 1 0 else []),
        centripetalResult =
          (if centripetal knotParametrization then [] @ catmullRomImpl ps (1 / 2) 0 else []) \<rparr>)"

section \<open>The evaluators on a store of mutable points\<close>

text \<open>
  The evaluators once more, on a store: a \<^verbatim>\<open>vec3\<close> is an object that \<^verbatim>\<open>vec3.lerp\<close> overwrites
  in place, and the arrays of the source hold references to such objects. The store is
  the list of all objects allocated so far, a reference is an index into it, and an
  allocation appends. The arrays themselves (\<^verbatim>\<open>points\<close>, \<^verbatim>\<open>p1s\<close>, \<^verbatim>\<open>p2s\<close>, \<^verbatim>\<open>stack\<close>, \<^verbatim>\<open>out\<close>,
  \<^verbatim>\<open>result\<close>) are local to a call, or read-only as \<^verbatim>\<open>ps\<close> is, and are lists of references.
  The source has no variables outside its functions, so the store is all the state
  there is between two calls.
\<close>

type_synonym ref = nat
type_synonym heap = "vec3 list"

text \<open>
  \<^verbatim>\<open>vec3.create()\<close> followed by the assignment of its three components, or
  \<^verbatim>\<open>vec3.fromValues(x, y, z)\<close>; \<^verbatim>\<open>vec3.clone(a)\<close>; \<^verbatim>\<open>vec3.lerp(out, a, b, t)\<close>, which writes the
  object \<open>out\<close>; and \<^verbatim>\<open>vec3.dist(a, b)\<close>, which only reads.
\<close>

definition new_vec3 :: "vec3 \<Rightarrow> heap \<Rightarrow> ref \<times> heap" where
  "new_vec3 v h = (length h, h @ [v])"

definition h_clone :: "ref \<Rightarrow> heap \<Rightarrow> ref \<times> heap" where
  "h_clone a h = new_vec3 (vec3_clone (h ! a)) h"

definition h_lerp :: "ref \<Rightarrow> ref \<Rightarrow> ref \<Rightarrow> real \<Rightarrow> heap \<Rightarrow> heap" where
  "h_lerp out a b t h = h[out := vec3_lerp (h ! a) (h ! b) t]"

definition h_dist :: "ref \<Rightarrow> ref \<Rightarrow> heap \<Rightarrow> real" where
  "h_dist a b h = vec3_dist (h ! a) (h ! b)"

text \<open>
  \<^verbatim>\<open>ps.map(vec3.clone)\<close>, and the inner loop of the evaluators writing the store.
\<close>

fun h_map_clone :: "ref list \<Rightarrow> heap \<Rightarrow> ref list \<times> heap" where
  "h_map_clone [] h = ([], h)"
| "h_map_clone (p # ps) h =
     (case h_clone p h of (r, h1) \<Rightarrow>
        (case h_map_clone ps h1 of (rs, h2) \<Rightarrow> (r # rs, h2)))"

function h_lerp_loop :: "real \<Rightarrow> nat \<Rightarrow> nat \<Rightarrow> ref list \<Rightarrow> heap \<Rightarrow> heap" where
  "h_lerp_loop t bound i points h =
     (if i < bound
      then h_lerp_loop t bound (Suc i) points (h_lerp (points ! i) (points ! i) (points ! (i + 1)) t h)
      else h)"
  by pat_completeness auto
termination
  by (relation "measure (\<lambda>(t, bound, i, points, h). bound - i)") auto

declare h_lerp_loop.simps [simp del]

text \<open>
  \<^verbatim>\<open>while (points.length > keep) { for (let i = 0; i < points.length - keep; i++) ...; points.pop(); }\<close>
  with \<open>keep = 1\<close> in \<^verbatim>\<open>evaluateBezierCurve\<close> and \<^verbatim>\<open>uniformBSpline\<close> and \<open>keep = 2\<close> in
  \<^verbatim>\<open>quadraticUniformBSpline\<close>; and the loop over the parameters, which pushes
  \<^verbatim>\<open>points[idx]\<close> with \<open>idx = 0\<close> and \<open>idx = 1\<close> respectively.
\<close>

function h_reduce :: "nat \<Rightarrow> real \<Rightarrow> ref list \<Rightarrow> heap \<Rightarrow> ref list \<times> heap" where
  "h_reduce keep t points h =
     (if length points > keep
      then h_reduce keep t (butlast points) (h_lerp_loop t (length points - keep) 0 points h)
      else (points, h))"
  by pat_completeness auto
termination
  by (relation "measure (\<lambda>(keep, t, points, h). length points)") auto

declare h_reduce.simps [simp del]

fun h_eval_loop ::
  "nat \<Rightarrow> nat \<Rightarrow> ref list \<Rightarrow> real list \<Rightarrow> ref list \<Rightarrow> heap \<Rightarrow> ref list \<times> heap" where
  "h_eval_loop keep idx ps [] result h = (result, h)"
| "h_eval_loop keep idx ps (t # ts) result h =
     (case h_map_clone ps h of (points, h1) \<Rightarrow>
        (case h_reduce keep t points h1 of (points', h2) \<Rightarrow>
           h_eval_loop keep idx ps ts (result @ [points' ! idx]) h2))"

definition h_evaluateBezierCurve ::
  "ref list \<Rightarrow> real list \<Rightarrow> heap \<Rightarrow> error + ref list \<times> heap" where
  "h_evaluateBezierCurve ps ts h =
     (if length ps < 2 then Inl (Error ''At least 2 control points are required'')
      else Inr (h_eval_loop 1 0 ps ts [] h))"

definition h_uniformBSpline ::
  "ref list \<Rightarrow> real list \<Rightarrow> heap \<Rightarrow> error + ref list \<times> heap" where
  "h_uniformBSpline ps ts h =
     (if length ps < 2 then Inl (Error ''At least 2 control points are required'')
      else Inr (h_eval_loop 1 0 ps ts [] h))"

definition h_quadraticUniformBSpline ::
  "ref list \<Rightarrow> real list \<Rightarrow> heap \<Rightarrow> error + ref list \<times> heap" where
  "h_quadraticUniformBSpline ps ts h =
     (if length ps < 3 then Inl (Error ''At least 3 control points are required'')
      else Inr (h_eval_loop 2 1 ps ts [] h))"

text \<open>
  \<^verbatim>\<open>adaptiveSubdivision\<close> on the store. Its output holds references: to fresh clones, and to
  the last object of a popped sequence, which for the first popped sequence is an object
  of the caller.
\<close>

function h_lp_loop :: "ref list \<Rightarrow> nat \<Rightarrow> real \<Rightarrow> heap \<Rightarrow> real" where
  "h_lp_loop top' i lp h =
     (if i < length top' - 1
      then h_lp_loop top' (Suc i) (lp + h_dist (top' ! i) (top' ! (i + 1)) h) h
      else lp)"
  by pat_completeness auto
termination
  by (relation "measure (\<lambda>(top', i, lp, h). length top' - 1 - i)") auto

declare h_lp_loop.simps [simp del]

function h_bisect_loop ::
  "ref list \<Rightarrow> ref list \<Rightarrow> ref list \<Rightarrow> heap \<Rightarrow> ref list \<times> ref list \<times> heap" where
  "h_bisect_loop points p1s p2s h =
     (if length points > 1
      then (let h1 = h_lerp_loop (1 / 2) (length points - 1) 0 points h;
                points' = butlast points
            in case h_clone (points' ! 0) h1 of (r1, h2) \<Rightarrow>
                 (case h_clone (points' ! (length points' - 1)) h2 of (r2, h3) \<Rightarrow>
                    h_bisect_loop points' (p1s @ [r1]) (p2s @ [r2]) h3))
      else (p1s, p2s, h))"
  by pat_completeness auto
termination
  by (relation "measure (\<lambda>(points, p1s, p2s, h). length points)") auto

declare h_bisect_loop.simps [simp del]

definition h_subdivision_body ::
  "ref list \<Rightarrow> ref list list \<Rightarrow> ref list \<Rightarrow> heap \<Rightarrow>
     error + (ref list list \<times> ref list \<times> heap)" where
  "h_subdivision_body top' stack out h =
     (if length top' < 2 then Inl (Error ''At least 2 control points are required'')
      else if length top' = 2 then Inr (stack, out @ [top' ! 1], h)
      else
        let last' = top' ! (length top' - 1);
            lp = h_lp_loop top' 0 0 h;
            lc = h_dist (top' ! 0) last' h;
            n = length top' - 1
        in if (real n - 1) / (real n + 1) * (lp - lc) > 1 / 100000
           then (case h_map_clone top' h of (points, h1) \<Rightarrow>
                  (case h_clone (top' ! 0) h1 of (r1, h2) \<Rightarrow>
                    (case h_clone last' h2 of (r2, h3) \<Rightarrow>
                      (case h_bisect_loop points [r1] [r2] h3 of (p1s, p2s, h4) \<Rightarrow>
                         Inr (p1s # rev p2s # stack, out, h4)))))
           else Inr (stack, out @ [last'], h))"

partial_function (option) h_subdivision_loop ::
  "ref list list \<Rightarrow> ref list \<Rightarrow> heap \<Rightarrow> (error + ref list \<times> heap) option" where
  "h_subdivision_loop stack out h =
     (case stack of
        [] \<Rightarrow> Some (Inr (out, h))
      | top' # rest \<Rightarrow>
          (case h_subdivision_body top' rest out h of
             Inl e \<Rightarrow> Some (Inl e)
           | Inr (stack', out', h') \<Rightarrow> h_subdivision_loop stack' out' h'))"

definition h_adaptiveSubdivision :: "ref list \<Rightarrow> heap \<Rightarrow> (error + ref list \<times> heap) option" where
  "h_adaptiveSubdivision ps h =
     (if length ps < 2 then Some (Inl (Error ''At least 2 control points are required''))
      else if length ps = 2 then Some (Inr (h_map_clone ps h))
      else (case h_clone (ps ! 0) h of (r0, h1) \<Rightarrow> h_subdivision_loop [ps] [r0] h1))"

text \<open>
  \<^verbatim>\<open>cubicCatmullRomSpline\<close> on the store: the tangents, the coefficients and every sample
  are fresh objects, \<^verbatim>\<open>c\<close> is the object \<^verbatim>\<open>m1\<close> and \<^verbatim>\<open>d\<close> is the control point \<^verbatim>\<open>p1\<close>.
\<close>

function h_sample_loop ::
  "ref \<Rightarrow> ref \<Rightarrow> ref \<Rightarrow> ref \<Rightarrow> nat \<Rightarrow> ref list \<Rightarrow> heap \<Rightarrow> ref list \<times> heap" where
  "h_sample_loop a b c d i result h =
     (if i \<le> 20
      then (let t = real i / 20;
                x = ((vx (h ! a) * t + vx (h ! b)) * t + vx (h ! c)) * t + vx (h ! d);
                y = ((vy (h ! a) * t + vy (h ! b)) * t + vy (h ! c)) * t + vy (h ! d);
                z = ((vz (h ! a) * t + vz (h ! b)) * t + vz (h ! c)) * t + vz (h ! d)
            in case new_vec3 (Vec3 x y z) h of (r, h1) \<Rightarrow>
                 h_sample_loop a b c d (Suc i) (result @ [r]) h1)
      else (result, h))"
  by pat_completeness auto
termination
  by (relation "measure (\<lambda>(a, b, c, d, i, result, h). 21 - i)") auto

declare h_sample_loop.simps [simp del]

definition h_segment_coefficients ::
  "ref list \<Rightarrow> real \<Rightarrow> real \<Rightarrow> nat \<Rightarrow> heap \<Rightarrow> (ref \<times> ref \<times> ref \<times> ref) \<times> heap" where
  "h_segment_coefficients ps alpha tension k h =
     (let p0 = ps ! k; p1 = ps ! (k + 1); p2 = ps ! (k + 2); p3 = ps ! (k + 3);
          t01 = js_pow (h_dist p0 p1 h) alpha;
          t12 = js_pow (h_dist p1 p2 h) alpha;
          t23 = js_pow (h_dist p2 p3 h) alpha
      in case new_vec3 (tangent_m1 tension t01 t12 (h ! p0) (h ! p1) (h ! p2)) h of (m1, h1) \<Rightarrow>
         (case new_vec3 (tangent_m2 tension t12 t23 (h1 ! p1) (h1 ! p2) (h1 ! p3)) h1 of (m2, h2) \<Rightarrow>
         (case new_vec3 (coefficient_a (h2 ! p1) (h2 ! p2) (h2 ! m1) (h2 ! m2)) h2 of (a, h3) \<Rightarrow>
         (case new_vec3 (coefficient_b (h3 ! p1) (h3 ! p2) (h3 ! m1) (h3 ! m2)) h3 of (b, h4) \<Rightarrow>
            ((a, b, m1, p1), h4)))))"

function h_catmull_loop ::
  "ref list \<Rightarrow> real \<Rightarrow> real \<Rightarrow> nat \<Rightarrow> ref list \<Rightarrow> heap \<Rightarrow> ref list \<times> heap" where
  "h_catmull_loop ps alpha tension k result h =
     (if k < length ps - 3
      then (case h_segment_coefficients ps alpha tension k h of
              ((a, b, c, d), h1) \<Rightarrow>
                (case h_sample_loop a b c d 0 result h1 of
                   (result', h2) \<Rightarrow> h_catmull_loop ps alpha tension (Suc k) result' h2))
      else (result, h))"
  by pat_completeness auto
termination
  by (relation "measure (\<lambda>(ps, alpha, tension, k, result, h). length ps - 3 - k)") auto

declare h_catmull_loop.simps [simp del]

definition h_catmullRomImpl :: "ref list \<Rightarrow> real \<Rightarrow> real \<Rightarrow> heap \<Rightarrow> ref list \<times> heap" where
  "h_catmullRomImpl ps alpha tension h = h_catmull_loop ps alpha tension 0 [] h"

definition h_cubicCatmullRomSpline ::
  "ref list \<Rightarrow> knot_parametrization \<Rightarrow> heap \<Rightarrow>
     error + ((ref list \<times> ref list \<times> ref list) \<times> heap)" where
  "h_cubicCatmullRomSpline ps knotParametrization h =
     (if length ps < 4 then Inl (Error ''At least 4 control points are required'')
      else
        (case (if uniform knotParametrization then h_catmullRomImpl ps 0 0 h else ([], h)) of
           (uniformResult', h1) \<Rightarrow>
        (case (if chordal knotParametrization then h_catmullRomImpl ps 1 0 h1 else ([], h1)) of
           (chordalResult', h2) \<Rightarrow>
        (case (if centripetal knotParametrization then h_catmullRomImpl ps (1 / 2) 0 h2 else ([], h2)) of
           (centripetalResult', h3) \<Rightarrow>
             Inr ((uniformResult', chordalResult', centripetalResult'), h3)))))"

text \<open>
  References that point into the store, the values they point to, and a store that only
  grew: every object it held is still there, unchanged.
\<close>

definition valid_refs :: "heap \<Rightarrow> ref list \<Rightarrow> bool" where
  "valid_refs h rs \<longleftrightarrow> list_all (\<lambda>r. r < length h) rs"

definition values_of :: "heap \<Rightarrow> ref list \<Rightarrow> vec3 list" where
  "values_of h rs = map (\<lambda>r. h ! r) rs"

definition heap_le :: "heap \<Rightarrow> heap \<Rightarrow> bool" where
  "heap_le h h' \<longleftrightarrow> take (length h) h' = h"

text \<open>
  What a caller can observe of an outcome: the exception, or the values of the returned
  points; and that a call left every object of the store before the call as it was and
  returned references into the store.
\<close>

definition result_values :: "error + ref list \<times> heap \<Rightarrow> error + vec3 list" where
  "result_values x = (case x of Inl e \<Rightarrow> Inl e | Inr (r, h) \<Rightarrow> Inr (values_of h r))"

definition extends_heap :: "heap \<Rightarrow> error + ref list \<times> heap \<Rightarrow> bool" where
  "extends_heap h x = (case x of Inl e \<Rightarrow> True | Inr (r, h') \<Rightarrow> heap_le h h' \<and> valid_refs h' r)"

definition catmull_values ::
  "error + ((ref list \<times> ref list \<times> ref list) \<times> heap) \<Rightarrow> error + catmull_rom_result" where
  "catmull_values x =
     (case x of
        Inl e \<Rightarrow> Inl e
      | Inr ((u, c, ce), h) \<Rightarrow>
          Inr \<lparr>uniformResult = values_of h u, chordalResult = values_of h c,
               centripetalResult = values_of h ce\<rparr>)"

definition catmull_extends_heap ::
  "heap \<Rightarrow> error + ((ref list \<times> ref list \<times> ref list) \<times> heap) \<Rightarrow> bool" where
  "catmull_extends_heap h x =
     (case x of
        Inl e \<Rightarrow> True
      | Inr ((u, c, ce), h') \<Rightarrow>
          heap_le h h' \<and> valid_refs h' u \<and> valid_refs h' c \<and> valid_refs h' ce)"

text \<open>
  A second invocation of an evaluator, in the store that the first one left (after an
  exception, which is thrown before any write, the store of the first call).
\<close>

definition second_run ::
  "(heap \<Rightarrow> (error + 'r \<times> heap) option) \<Rightarrow> heap \<Rightarrow> (error + 'r \<times> heap) option" where
  "second_run run h =
     (case run h of
        None \<Rightarrow> None
      | Some (Inl e) \<Rightarrow> run h
      | Some (Inr (r, h1)) \<Rightarrow> run h1)"

text \<open>
  For the proofs: the reduction loop with its constant as a parameter, and references
  that lie beyond a region of the store.
\<close>

function reduce_gen :: "nat \<Rightarrow> real \<Rightarrow> vec3 list \<Rightarrow> vec3 list" where
  "reduce_gen keep t points =
     (if length points > keep
      then reduce_gen keep t (butlast (lerp_loop t (length points - keep) 0 points))
      else points)"
  by pat_completeness auto
termination
proof (relation "measure (\<lambda>(keep, t, points). length points)")
  show "wf (measure (\<lambda>(keep, t, points). length points))" by simp
next
  fix keep :: nat and t :: real and points :: "vec3 list"
  assume "keep < length points"
  have "length (lerp_loop s b i xs) = length xs" for s b i xs
    by (induction s b i xs rule: lerp_loop.induct) (subst lerp_loop.simps, simp)
  with \<open>keep < length points\<close>
  show "((keep, t, butlast (lerp_loop t (length points - keep) 0 points)), (keep, t, points))
          \<in> measure (\<lambda>(keep, t, points). length points)"
    by simp
qed

declare reduce_gen.simps [simp del]

definition beyond :: "nat \<Rightarrow> heap \<Rightarrow> ref list \<Rightarrow> bool" where
  "beyond n h rs \<longleftrightarrow> list_all (\<lambda>r. n \<le> r \<and> r < length h) rs"

section \<open>The algorithms in the words of the specification\<close>

text \<open>Linear interpolation as the specification writes it: \<open>(1 - t) * a + t * b\<close>.\<close>

fun lerp_spec :: "vec3 \<Rightarrow> vec3 \<Rightarrow> real \<Rightarrow> vec3" where
  "lerp_spec (Vec3 ax ay az) (Vec3 bx by bz) t =
     Vec3 ((1 - t) * ax + t * bx) ((1 - t) * ay + t * by) ((1 - t) * az + t * bz)"

text \<open>
  One round of De Casteljau's algorithm replaces \<open>[B\<^sub>0 ... B\<^sub>k]\<close> by
  \<open>[lerp(B\<^sub>0, B\<^sub>1, t) ... lerp(B\<^sub>k\<^sub>-\<^sub>1, B\<^sub>k, t)]\<close>; the reduction repeats it until one
  point remains.
\<close>

definition de_casteljau_round :: "real \<Rightarrow> vec3 list \<Rightarrow> vec3 list" where
  "de_casteljau_round t bs = map (\<lambda>k. lerp_spec (bs ! k) (bs ! (k + 1)) t) [0..<length bs - 1]"

function de_casteljau :: "real \<Rightarrow> vec3 list \<Rightarrow> vec3 list" where
  "de_casteljau t bs = (if length bs > 1 then de_casteljau t (de_casteljau_round t bs) else bs)"
  by pat_completeness auto
termination
  by (relation "measure (\<lambda>(t, bs). length bs)") (auto simp: de_casteljau_round_def)

declare de_casteljau.simps [simp del]

text \<open>
  A cubic Hermite segment from \<open>p1\<close> to \<open>p2\<close> with the tangents \<open>m1\<close> and \<open>m2\<close>, one
  component, in Horner form; the uniform Catmull-Rom tangents at \<open>p1\<close> and \<open>p2\<close> are
  \<open>(p2 - p0) / 2\<close> and \<open>(p3 - p1) / 2\<close>.
\<close>

definition hermite :: "real \<Rightarrow> real \<Rightarrow> real \<Rightarrow> real \<Rightarrow> real \<Rightarrow> real" where
  "hermite p1 p2 m1 m2 t =
     (((2 * (p1 - p2) + m1 + m2) * t + (- 3 * (p1 - p2) - 2 * m1 - m2)) * t + m1) * t + p1"

definition uniform_sample :: "vec3 \<Rightarrow> vec3 \<Rightarrow> vec3 \<Rightarrow> vec3 \<Rightarrow> real \<Rightarrow> vec3" where
  "uniform_sample p0 p1 p2 p3 t =
     Vec3 (hermite (vx p1) (vx p2) ((vx p2 - vx p0) / 2) ((vx p3 - vx p1) / 2) t)
          (hermite (vy p1) (vy p2) ((vy p2 - vy p0) / 2) ((vy p3 - vy p1) / 2) t)
          (hermite (vz p1) (vz p2) ((vz p2 - vz p0) / 2) ((vz p3 - vz p1) / 2) t)"

text \<open>
  The cubic \<open>((a * t + b) * t + c) * t + d\<close>, component-wise, and the 21 samples at
  \<open>t = i / 20\<close> of the window \<open>(p0, p1, p2, p3)\<close> with tension 0.
\<close>

definition cubic_point :: "vec3 \<Rightarrow> vec3 \<Rightarrow> vec3 \<Rightarrow> vec3 \<Rightarrow> real \<Rightarrow> vec3" where
  "cubic_point a b c d t =
     Vec3 (((vx a * t + vx b) * t + vx c) * t + vx d)
          (((vy a * t + vy b) * t + vy c) * t + vy d)
          (((vz a * t + vz b) * t + vz c) * t + vz d)"

definition window_samples :: "vec3 \<Rightarrow> vec3 \<Rightarrow> vec3 \<Rightarrow> vec3 \<Rightarrow> real \<Rightarrow> vec3 list" where
  "window_samples p0 p1 p2 p3 alpha =
     (case segment_coefficients [p0, p1, p2, p3] alpha 0 0 of
        (a, b, c, d) \<Rightarrow> map (\<lambda>i. cubic_point a b c d (real i / 20)) [0..<21])"

text \<open>
  Row \<open>j\<close> of De Casteljau's triangle at \<open>t = 0.5\<close>. The left half of a bisected segment
  collects the leftmost points of the rows; the right half collects the rightmost points,
  reversed to restore the forward order.
\<close>

definition dc_level :: "vec3 list \<Rightarrow> nat \<Rightarrow> vec3 list" where
  "dc_level top' j = (de_casteljau_round (1 / 2) ^^ j) top'"

definition left_half :: "vec3 list \<Rightarrow> vec3 list" where
  "left_half top' = map (\<lambda>j. dc_level top' j ! 0) [0..<length top']"

definition right_half :: "vec3 list \<Rightarrow> vec3 list" where
  "right_half top' = rev (map (\<lambda>j. dc_level top' j ! (length top' - 1 - j)) [0..<length top'])"

text \<open>
  The polygon length \<open>Lp\<close>, the chord length \<open>Lc\<close> and the error estimate
  \<open>E = (n - 1) / (n + 1) * (Lp - Lc)\<close> with \<open>n\<close> the point count minus 1.
\<close>

definition polygon_length :: "vec3 list \<Rightarrow> real" where
  "polygon_length top' = sum_list (map (\<lambda>i. vec3_dist (top' ! i) (top' ! (i + 1))) [0..<length top' - 1])"

definition chord_length :: "vec3 list \<Rightarrow> real" where
  "chord_length top' = vec3_dist (top' ! 0) (top' ! (length top' - 1))"

definition gravesen_error :: "vec3 list \<Rightarrow> real" where
  "gravesen_error top' =
     (let n = real (length top' - 1)
      in (n - 1) / (n + 1) * (polygon_length top' - chord_length top'))"

section \<open>Vectors and second differences\<close>

text \<open>
  The vocabulary of the termination argument: differences, sums and multiples of points,
  the Euclidean norm, and the norm of the second difference \<open>(c - b) - (b - a)\<close> of three
  consecutive points, bounded along a whole polygon.
\<close>

fun vsub :: "vec3 \<Rightarrow> vec3 \<Rightarrow> vec3" where
  "vsub (Vec3 ax ay az) (Vec3 bx by bz) = Vec3 (ax - bx) (ay - by) (az - bz)"

fun vadd :: "vec3 \<Rightarrow> vec3 \<Rightarrow> vec3" where
  "vadd (Vec3 ax ay az) (Vec3 bx by bz) = Vec3 (ax + bx) (ay + by) (az + bz)"

fun vscale :: "real \<Rightarrow> vec3 \<Rightarrow> vec3" where
  "vscale r (Vec3 ax ay az) = Vec3 (r * ax) (r * ay) (r * az)"

fun vnorm :: "vec3 \<Rightarrow> real" where
  "vnorm (Vec3 ax ay az) = sqrt (ax\<^sup>2 + ay\<^sup>2 + az\<^sup>2)"

definition second_diff :: "vec3 \<Rightarrow> vec3 \<Rightarrow> vec3 \<Rightarrow> real" where
  "second_diff a b c = vnorm (vsub (vsub c b) (vsub b a))"

definition second_diff_le :: "vec3 list \<Rightarrow> real \<Rightarrow> bool" where
  "second_diff_le ps c \<longleftrightarrow>
     (\<forall>i. i + 2 < length ps \<longrightarrow> second_diff (ps ! i) (ps ! (i + 1)) (ps ! (i + 2)) \<le> c)"

abbreviation mid :: "vec3 \<Rightarrow> vec3 \<Rightarrow> vec3" where
  "mid a b \<equiv> lerp_spec a b (1 / 2)"

section \<open>Basic facts\<close>

lemma length_lerp_loop [simp]: "length (lerp_loop t bound i points) = length points"
  by (induction t bound i points rule: lerp_loop.induct) (subst lerp_loop.simps, simp)

lemma vec3_lerp_spec: "vec3_lerp a b t = lerp_spec a b t"
  by (cases a; cases b) (simp add: algebra_simps)

lemma vec3_clone_id [simp]: "vec3_clone a = a"
  by (cases a) simp

lemma map_vec3_clone [simp]: "map vec3_clone ps = ps"
  by (induction ps) auto

lemma lerp_loop_nth:
  "bound < length points \<Longrightarrow> k < length points \<Longrightarrow>
   lerp_loop t bound i points ! k =
     (if i \<le> k \<and> k < bound then vec3_lerp (points ! k) (points ! (k + 1)) t else points ! k)"
proof (induction t bound i points arbitrary: k rule: lerp_loop.induct)
  case (1 t bound i points)
  show ?case
  proof (cases "i < bound")
    case True
    then show ?thesis
      using "1.prems" "1.IH"[OF True, of k]
      by (subst lerp_loop.simps) (auto simp: nth_list_update)
  next
    case False
    then show ?thesis by (subst lerp_loop.simps) auto
  qed
qed

lemma lerp_pass_round:
  "butlast (lerp_loop t (length points - 1) 0 points) = de_casteljau_round t points"
proof (cases "points = []")
  case True
  then show ?thesis by (subst lerp_loop.simps) (simp add: de_casteljau_round_def)
next
  case False
  then show ?thesis
    by (intro nth_equalityI)
       (auto simp: de_casteljau_round_def nth_butlast lerp_loop_nth vec3_lerp_spec)
qed

lemma bezier_reduce_de_casteljau: "bezier_reduce t points = de_casteljau t points"
proof (induction t points rule: bezier_reduce.induct)
  case (1 t points)
  show ?case
  proof (cases "length points > 1")
    case True
    have "bezier_reduce t points =
          bezier_reduce t (butlast (lerp_loop t (length points - 1) 0 points))"
      using True by (subst bezier_reduce.simps) simp
    also have "\<dots> = de_casteljau t (butlast (lerp_loop t (length points - 1) 0 points))"
      using "1.IH"[OF True] .
    also have "\<dots> = de_casteljau t (de_casteljau_round t points)"
      by (simp only: lerp_pass_round)
    also have "\<dots> = de_casteljau t points"
      using True by (subst (2) de_casteljau.simps) simp
    finally show ?thesis .
  next
    case False
    then show ?thesis
      by (subst bezier_reduce.simps, subst de_casteljau.simps) simp
  qed
qed

lemma length_de_casteljau: "length bs \<ge> 1 \<Longrightarrow> length (de_casteljau t bs) = 1"
proof (induction t bs rule: de_casteljau.induct)
  case (1 t bs)
  show ?case
  proof (cases "length bs > 1")
    case True
    then show ?thesis using 1 by (subst de_casteljau.simps) (simp add: de_casteljau_round_def)
  next
    case False
    then show ?thesis using 1 by (subst de_casteljau.simps) simp
  qed
qed

section \<open>The Bezier evaluator is De Casteljau's algorithm\<close>

text \<open>
  Claim C1. For at least two control points \<open>ps\<close> and any parameter sequence \<open>ts\<close>,
  \<^verbatim>\<open>evaluateBezierCurve\<close> returns without an exception a sequence with one point per
  parameter, in the order of \<open>ts\<close>, and its \<open>k\<close>-th point is the single point that the
  De Casteljau reduction of \<open>ps\<close> at \<open>ts ! k\<close> ends with, where the reduction uses the
  interpolation \<open>(1 - t) * a + t * b\<close>.
\<close>

theorem evaluateBezierCurve_de_casteljau:
  assumes "2 \<le> length ps"
  shows "\<exists>out. evaluateBezierCurve ps ts = Inr out \<and> length out = length ts \<and>
           (\<forall>k<length ts. de_casteljau (ts ! k) ps = [out ! k])"
proof -
  have "de_casteljau t ps = [de_casteljau t ps ! 0]" for t
  proof -
    have "length (de_casteljau t ps) = 1" using assms by (simp add: length_de_casteljau)
    then show ?thesis by (cases "de_casteljau t ps") auto
  qed
  then show ?thesis using assms
    by (simp add: evaluateBezierCurve_def bezier_reduce_de_casteljau)
qed

theorem evaluateBezierCurve_de_casteljau_witness:
  "2 \<le> length [Vec3 0 0 0, Vec3 1 0 0, Vec3 2 1 0] \<and>
   (\<exists>out. evaluateBezierCurve [Vec3 0 0 0, Vec3 1 0 0, Vec3 2 1 0] [1 / 2] = Inr out \<and>
      length out = length [1 / 2 :: real] \<and>
      (\<forall>k<length [1 / 2 :: real].
         de_casteljau ([1 / 2] ! k) [Vec3 0 0 0, Vec3 1 0 0, Vec3 2 1 0] = [out ! k]))"
  using evaluateBezierCurve_de_casteljau [of "[Vec3 0 0 0, Vec3 1 0 0, Vec3 2 1 0]" "[1 / 2]"]
  by simp

section \<open>End points of the Bezier curve\<close>

lemma de_casteljau_round_0: "de_casteljau_round 0 bs = butlast bs"
proof (intro nth_equalityI)
  show "length (de_casteljau_round 0 bs) = length (butlast bs)"
    by (simp add: de_casteljau_round_def)
next
  fix i assume "i < length (de_casteljau_round 0 bs)"
  then have i: "i < length bs - 1" by (simp add: de_casteljau_round_def)
  have "lerp_spec a b 0 = a" for a b by (cases a; cases b) simp
  with i show "de_casteljau_round 0 bs ! i = butlast bs ! i"
    by (simp add: de_casteljau_round_def nth_butlast)
qed

lemma de_casteljau_round_1: "de_casteljau_round 1 bs = tl bs"
proof (intro nth_equalityI)
  show "length (de_casteljau_round 1 bs) = length (tl bs)"
    by (simp add: de_casteljau_round_def)
next
  fix i assume "i < length (de_casteljau_round 1 bs)"
  then have i: "i < length bs - 1" by (simp add: de_casteljau_round_def)
  have "lerp_spec a b 1 = b" for a b by (cases a; cases b) simp
  with i show "de_casteljau_round 1 bs ! i = tl bs ! i"
    by (simp add: de_casteljau_round_def nth_tl)
qed

lemma de_casteljau_0: "bs \<noteq> [] \<Longrightarrow> de_casteljau 0 bs = [bs ! 0]"
proof (induction "length bs" arbitrary: bs)
  case 0
  then show ?case by simp
next
  case (Suc n)
  show ?case
  proof (cases "length bs > 1")
    case True
    then have ne: "butlast bs \<noteq> []" by (cases bs) auto
    have "n = length (butlast bs)" using Suc.hyps(2) by simp
    from Suc.hyps(1)[OF this ne] True show ?thesis
      by (subst de_casteljau.simps) (simp add: de_casteljau_round_0 nth_butlast)
  next
    case False
    with Suc.prems show ?thesis
      by (subst de_casteljau.simps) (cases bs; auto)
  qed
qed

lemma de_casteljau_1: "bs \<noteq> [] \<Longrightarrow> de_casteljau 1 bs = [bs ! (length bs - 1)]"
proof (induction "length bs" arbitrary: bs)
  case 0
  then show ?case by simp
next
  case (Suc n)
  show ?case
  proof (cases "length bs > 1")
    case True
    then have ne: "tl bs \<noteq> []" by (cases bs) auto
    have "n = length (tl bs)" using Suc.hyps(2) by simp
    moreover have "Suc (length bs - Suc (Suc 0)) = length bs - Suc 0" using True by simp
    ultimately show ?thesis using Suc.hyps(1)[OF _ ne] True
      by (subst de_casteljau.simps) (simp add: de_casteljau_round_1 nth_tl)
  next
    case False
    with Suc.prems show ?thesis
      by (subst de_casteljau.simps) (cases bs; auto)
  qed
qed

text \<open>
  Claim C3. For at least two control points the evaluator returns one point per parameter;
  wherever the parameter sequence holds 0 the returned point is the first control point,
  and wherever it holds 1 the returned point is the last control point (in exact real
  arithmetic).
\<close>

theorem evaluateBezierCurve_endpoints:
  assumes "2 \<le> length ps"
  shows "\<exists>out. evaluateBezierCurve ps ts = Inr out \<and> length out = length ts \<and>
           (\<forall>k<length ts. (ts ! k = 0 \<longrightarrow> out ! k = ps ! 0) \<and>
                           (ts ! k = 1 \<longrightarrow> out ! k = ps ! (length ps - 1)))"
proof -
  from assms have ne: "ps \<noteq> []" by auto
  show ?thesis using assms
    by (auto simp: evaluateBezierCurve_def bezier_reduce_de_casteljau
                   de_casteljau_0[OF ne] de_casteljau_1[OF ne])
qed

theorem evaluateBezierCurve_endpoints_witness:
  "2 \<le> length [Vec3 0 0 0, Vec3 1 0 0, Vec3 2 1 0] \<and>
   (\<exists>out. evaluateBezierCurve [Vec3 0 0 0, Vec3 1 0 0, Vec3 2 1 0] [0, 1 / 2, 1] = Inr out \<and>
      length out = 3 \<and> out ! 0 = Vec3 0 0 0 \<and> out ! 2 = Vec3 2 1 0)"
  using evaluateBezierCurve_endpoints [of "[Vec3 0 0 0, Vec3 1 0 0, Vec3 2 1 0]" "[0, 1 / 2, 1]"]
  by (auto simp: less_Suc_eq all_conj_distrib numeral_3_eq_3 numeral_2_eq_2)

section \<open>The uniform B-spline evaluator\<close>

lemma uniform_reduce_bezier_reduce: "uniform_reduce t points = bezier_reduce t points"
proof (induction t points rule: uniform_reduce.induct)
  case (1 t points)
  show ?case
  proof (cases "length points > 1")
    case True
    have "uniform_reduce t points =
          uniform_reduce t (butlast (lerp_loop t (length points - 1) 0 points))"
      using True by (subst uniform_reduce.simps) simp
    also have "\<dots> = bezier_reduce t (butlast (lerp_loop t (length points - 1) 0 points))"
      using "1.IH"[OF True] .
    also have "\<dots> = bezier_reduce t points"
      using True by (subst (2) bezier_reduce.simps) simp
    finally show ?thesis .
  next
    case False
    then show ?thesis
      by (subst uniform_reduce.simps, subst bezier_reduce.simps) simp
  qed
qed

text \<open>
  Claim C8. \<^verbatim>\<open>uniformBSpline\<close> and \<^verbatim>\<open>evaluateBezierCurve\<close> return the same result on the
  same control points and parameters. The equality holds for every input, so also for
  fewer than two control points, where both throw the same exception.
\<close>

theorem uniformBSpline_eq_evaluateBezierCurve:
  "uniformBSpline ps ts = evaluateBezierCurve ps ts"
  by (simp add: uniformBSpline_def evaluateBezierCurve_def uniform_reduce_bezier_reduce)

theorem uniformBSpline_eq_evaluateBezierCurve_witness:
  "uniformBSpline [Vec3 0 0 0, Vec3 1 0 0, Vec3 2 1 0] [1 / 2] = Inr [Vec3 1 (1 / 4) 0]"
  using uniformBSpline_eq_evaluateBezierCurve [of "[Vec3 0 0 0, Vec3 1 0 0, Vec3 2 1 0]" "[1 / 2]"]
  by (simp add: evaluateBezierCurve_def bezier_reduce.simps lerp_loop.simps)

section \<open>The quadratic B-spline evaluator\<close>

lemma quadratic_reduce_three:
  "quadratic_reduce t [p0, p1, p2] = [vec3_lerp p0 p1 t, p1]"
  by (simp add: quadratic_reduce.simps lerp_loop.simps)

text \<open>
  On exactly three control points the only reduction round writes \<open>lerp(p0, p1, t)\<close> to
  index 0 and drops \<open>p2\<close>, and the evaluator returns index 1: the interpolated point is
  never read, and neither \<open>t\<close> nor \<open>p0\<close> nor \<open>p2\<close> reaches the result.
\<close>

lemma quadraticUniformBSpline_returns_second:
  "quadraticUniformBSpline [p0, p1, p2] ts = Inr (map (\<lambda>t. p1) ts)"
  by (simp add: quadraticUniformBSpline_def quadratic_reduce_three)

text \<open>
  Claim C2. For \<open>ps = [(0,0,0), (1,0,0), (2,1,0)]\<close> and \<open>t = 0.5\<close> the interpolation of
  \<open>lerp(p0, p1, t)\<close> and \<open>lerp(p1, p2, t)\<close> is \<open>(1, 0.25, 0)\<close>, the point that the claim
  expects. The evaluator returns \<open>(1, 0, 0)\<close>, the control point \<open>p1\<close>: at this input the code
  does not do what the claim says.
\<close>

theorem quadraticUniformBSpline_example:
  "lerp_spec (lerp_spec (Vec3 0 0 0) (Vec3 1 0 0) (1 / 2))
             (lerp_spec (Vec3 1 0 0) (Vec3 2 1 0) (1 / 2)) (1 / 2) = Vec3 1 (1 / 4) 0 \<and>
   quadraticUniformBSpline [Vec3 0 0 0, Vec3 1 0 0, Vec3 2 1 0] [1 / 2] = Inr [Vec3 1 0 0] \<and>
   quadraticUniformBSpline [Vec3 0 0 0, Vec3 1 0 0, Vec3 2 1 0] [1 / 2] \<noteq> Inr [Vec3 1 (1 / 4) 0]"
  by (simp add: quadraticUniformBSpline_def quadratic_reduce.simps lerp_loop.simps)

section \<open>Catmull-Rom samples\<close>

lemma sample_loop_eq:
  "i \<le> 21 \<Longrightarrow> sample_loop a b c d i result =
     result @ map (\<lambda>i. cubic_point a b c d (real i / 20)) [i..<21]"
proof (induction a b c d i result rule: sample_loop.induct)
  case (1 a b c d i result)
  show ?case
  proof (cases "i \<le> 20")
    case True
    then have "[i..<21] = i # [Suc i..<21]" by (simp add: upt_conv_Cons)
    with True "1.IH"[OF True refl refl refl refl] show ?thesis
      by (subst sample_loop.simps) (simp add: Let_def cubic_point_def)
  next
    case False
    with "1.prems" have "i = 21" by simp
    then show ?thesis by (subst sample_loop.simps) simp
  qed
qed

lemma segment_coefficients_window:
  "segment_coefficients ps alpha tension k =
   segment_coefficients [ps ! k, ps ! (k + 1), ps ! (k + 2), ps ! (k + 3)] alpha tension 0"
  by (simp add: segment_coefficients_def numeral_3_eq_3 numeral_2_eq_2)

lemma catmull_loop_eq:
  "catmull_loop ps alpha 0 k result =
     result @ concat (map (\<lambda>k. window_samples (ps ! k) (ps ! (k + 1)) (ps ! (k + 2)) (ps ! (k + 3)) alpha)
                          [k..<length ps - 3])"
proof (induction ps alpha "0::real" k result rule: catmull_loop.induct)
  case (1 ps alpha k result)
  show ?case
  proof (cases "k < length ps - 3")
    case True
    obtain a b c d where abcd: "segment_coefficients ps alpha 0 k = (a, b, c, d)"
      by (cases "segment_coefficients ps alpha 0 k") auto
    have ws: "window_samples (ps ! k) (ps ! (k + 1)) (ps ! (k + 2)) (ps ! (k + 3)) alpha
              = map (\<lambda>i. cubic_point a b c d (real i / 20)) [0..<21]"
      unfolding window_samples_def segment_coefficients_window[of ps alpha 0 k, symmetric] abcd
      by simp
    have upt: "[k..<length ps - 3] = k # [Suc k..<length ps - 3]"
      using True by (simp add: upt_conv_Cons)
    have "catmull_loop ps alpha 0 k result =
          catmull_loop ps alpha 0 (Suc k) (sample_loop a b c d 0 result)"
      using True abcd by (subst catmull_loop.simps) simp
    also have "\<dots> = sample_loop a b c d 0 result @
        concat (map (\<lambda>k. window_samples (ps ! k) (ps ! (k + 1)) (ps ! (k + 2)) (ps ! (k + 3)) alpha)
                    [Suc k..<length ps - 3])"
      using "1.hyps"[OF True abcd[symmetric] refl refl] .
    finally show ?thesis
      using ws by (simp add: sample_loop_eq upt)
  next
    case False
    then show ?thesis by (subst catmull_loop.simps) simp
  qed
qed

lemma length_window_samples [simp]: "length (window_samples p0 p1 p2 p3 alpha) = 21"
  by (simp add: window_samples_def split: prod.splits)

lemma length_concat_windows:
  "length (concat (map (\<lambda>k. window_samples (f0 k) (f1 k) (f2 k) (f3 k) alpha) ks)) = 21 * length ks"
  by (induction ks) auto

lemma cubic_point_uniform:
  "(case segment_coefficients [p0, p1, p2, p3] 0 0 0 of (a, b, c, d) \<Rightarrow> cubic_point a b c d t)
     = uniform_sample p0 p1 p2 p3 t"
  by (cases p0; cases p1; cases p2; cases p3)
     (simp add: segment_coefficients_def tangent_m1_def tangent_m2_def coefficient_a_def
                coefficient_b_def js_pow_def cubic_point_def uniform_sample_def hermite_def
                field_simps)

lemma window_samples_uniform:
  "window_samples p0 p1 p2 p3 0 = map (\<lambda>i. uniform_sample p0 p1 p2 p3 (real i / 20)) [0..<21]"
proof -
  have "window_samples p0 p1 p2 p3 0 =
        map (\<lambda>i. case segment_coefficients [p0, p1, p2, p3] 0 0 0 of
                    (a, b, c, d) \<Rightarrow> cubic_point a b c d (real i / 20)) [0..<21]"
    by (simp add: window_samples_def split: prod.splits)
  then show ?thesis by (simp only: cubic_point_uniform)
qed

lemma catmullRomImpl_windows:
  "catmullRomImpl ps alpha 0 =
     concat (map (\<lambda>k. window_samples (ps ! k) (ps ! (k + 1)) (ps ! (k + 2)) (ps ! (k + 3)) alpha)
                 [0..<length ps - 3])"
  by (simp add: catmullRomImpl_def catmull_loop_eq)

lemma uniform_sample_0: "uniform_sample p0 p1 p2 p3 0 = p1"
  by (cases p1) (simp add: uniform_sample_def hermite_def)

lemma uniform_sample_1: "uniform_sample p0 p1 p2 p3 1 = p2"
  by (cases p1; cases p2) (simp add: uniform_sample_def hermite_def field_simps)

lemma cubicCatmullRomSpline_four_uniform:
  "cubicCatmullRomSpline [p0, p1, p2, p3] \<lparr>uniform = True, chordal = False, centripetal = False\<rparr>
     = Inr \<lparr>uniformResult = map (\<lambda>i. uniform_sample p0 p1 p2 p3 (real i / 20)) [0..<21],
            chordalResult = [], centripetalResult = []\<rparr>"
  by (simp add: cubicCatmullRomSpline_def catmullRomImpl_windows window_samples_uniform
                numeral_3_eq_3 numeral_2_eq_2)

text \<open>
  Claim C6. On exactly four control points with only the uniform parametrization
  selected, \<^verbatim>\<open>cubicCatmullRomSpline\<close> returns 21 uniform samples, the uniform Catmull-Rom
  cubic at \<open>t = i / 20\<close> for \<open>i = 0..20\<close>; sample 0 is \<open>p1\<close>, sample 20 is \<open>p2\<close>, and the
  other two results are empty. On at least four control points every selected
  parametrization yields the concatenation, over the \<open>length ps - 3\<close> windows of four
  consecutive control points, of the 21 samples of the window, and every other result
  is empty.
\<close>

theorem cubicCatmullRomSpline_samples:
  "(\<exists>r. cubicCatmullRomSpline [p0, p1, p2, p3]
           \<lparr>uniform = True, chordal = False, centripetal = False\<rparr> = Inr r \<and>
        uniformResult r = map (\<lambda>i. uniform_sample p0 p1 p2 p3 (real i / 20)) [0..<21] \<and>
        length (uniformResult r) = 21 \<and>
        uniformResult r ! 0 = p1 \<and> uniformResult r ! 20 = p2 \<and>
        chordalResult r = [] \<and> centripetalResult r = []) \<and>
   (4 \<le> length ps \<longrightarrow>
      (\<exists>r. cubicCatmullRomSpline ps kp = Inr r \<and>
         uniformResult r =
           (if uniform kp
            then concat (map (\<lambda>k. window_samples (ps ! k) (ps ! (k + 1)) (ps ! (k + 2)) (ps ! (k + 3)) 0)
                             [0..<length ps - 3])
            else []) \<and>
         chordalResult r =
           (if chordal kp
            then concat (map (\<lambda>k. window_samples (ps ! k) (ps ! (k + 1)) (ps ! (k + 2)) (ps ! (k + 3)) 1)
                             [0..<length ps - 3])
            else []) \<and>
         centripetalResult r =
           (if centripetal kp
            then concat (map (\<lambda>k. window_samples (ps ! k) (ps ! (k + 1)) (ps ! (k + 2)) (ps ! (k + 3)) (1 / 2))
                             [0..<length ps - 3])
            else []) \<and>
         length (uniformResult r) = (if uniform kp then 21 * (length ps - 3) else 0) \<and>
         length (chordalResult r) = (if chordal kp then 21 * (length ps - 3) else 0) \<and>
         length (centripetalResult r) = (if centripetal kp then 21 * (length ps - 3) else 0)) \<and>
      (\<forall>q0 q1 q2 q3 alpha. length (window_samples q0 q1 q2 q3 alpha) = 21))"
proof (intro conjI impI)
  have n0: "map (\<lambda>i. uniform_sample p0 p1 p2 p3 (real i / 20)) [0..<21] ! 0 = p1"
    by (simp add: uniform_sample_0 del: upt_Suc)
  have "map (\<lambda>i. uniform_sample p0 p1 p2 p3 (real i / 20)) [0..<21] ! 20
        = uniform_sample p0 p1 p2 p3 (real 20 / 20)"
    by (subst nth_map) (simp_all del: upt_Suc)
  then have n20: "map (\<lambda>i. uniform_sample p0 p1 p2 p3 (real i / 20)) [0..<21] ! 20 = p2"
    by (simp add: uniform_sample_1)
  show "\<exists>r. cubicCatmullRomSpline [p0, p1, p2, p3]
           \<lparr>uniform = True, chordal = False, centripetal = False\<rparr> = Inr r \<and>
        uniformResult r = map (\<lambda>i. uniform_sample p0 p1 p2 p3 (real i / 20)) [0..<21] \<and>
        length (uniformResult r) = 21 \<and>
        uniformResult r ! 0 = p1 \<and> uniformResult r ! 20 = p2 \<and>
        chordalResult r = [] \<and> centripetalResult r = []"
    unfolding cubicCatmullRomSpline_four_uniform using n0 n20 by simp
next
  assume "4 \<le> length ps"
  then show "\<exists>r. cubicCatmullRomSpline ps kp = Inr r \<and>
         uniformResult r =
           (if uniform kp
            then concat (map (\<lambda>k. window_samples (ps ! k) (ps ! (k + 1)) (ps ! (k + 2)) (ps ! (k + 3)) 0)
                             [0..<length ps - 3])
            else []) \<and>
         chordalResult r =
           (if chordal kp
            then concat (map (\<lambda>k. window_samples (ps ! k) (ps ! (k + 1)) (ps ! (k + 2)) (ps ! (k + 3)) 1)
                             [0..<length ps - 3])
            else []) \<and>
         centripetalResult r =
           (if centripetal kp
            then concat (map (\<lambda>k. window_samples (ps ! k) (ps ! (k + 1)) (ps ! (k + 2)) (ps ! (k + 3)) (1 / 2))
                             [0..<length ps - 3])
            else []) \<and>
         length (uniformResult r) = (if uniform kp then 21 * (length ps - 3) else 0) \<and>
         length (chordalResult r) = (if chordal kp then 21 * (length ps - 3) else 0) \<and>
         length (centripetalResult r) = (if centripetal kp then 21 * (length ps - 3) else 0)"
    by (simp add: cubicCatmullRomSpline_def catmullRomImpl_windows length_concat_windows)
next
  show "\<forall>q0 q1 q2 q3 alpha. length (window_samples q0 q1 q2 q3 alpha) = 21"
    by simp
qed

theorem cubicCatmullRomSpline_samples_witness:
  "4 \<le> length [Vec3 (- 1 / 2) (1 / 2) 0, Vec3 (- 1 / 4) (- 1 / 2) 0, Vec3 (1 / 4) (- 1 / 2) 0,
                 Vec3 (1 / 2) (1 / 2) 0, Vec3 1 0 0] \<and>
   (\<exists>r. cubicCatmullRomSpline
          [Vec3 (- 1 / 2) (1 / 2) 0, Vec3 (- 1 / 4) (- 1 / 2) 0, Vec3 (1 / 4) (- 1 / 2) 0,
           Vec3 (1 / 2) (1 / 2) 0, Vec3 1 0 0]
          \<lparr>uniform = True, chordal = True, centripetal = False\<rparr> = Inr r \<and>
        length (uniformResult r) = 42 \<and> length (chordalResult r) = 42 \<and>
        length (centripetalResult r) = 0) \<and>
   (\<exists>r. cubicCatmullRomSpline
          [Vec3 (- 1 / 2) (1 / 2) 0, Vec3 (- 1 / 4) (- 1 / 2) 0, Vec3 (1 / 4) (- 1 / 2) 0,
           Vec3 (1 / 2) (1 / 2) 0]
          \<lparr>uniform = True, chordal = False, centripetal = False\<rparr> = Inr r \<and>
        length (uniformResult r) = 21 \<and>
        uniformResult r ! 0 = Vec3 (- 1 / 4) (- 1 / 2) 0 \<and>
        uniformResult r ! 20 = Vec3 (1 / 4) (- 1 / 2) 0)"
  using cubicCatmullRomSpline_samples
          [of "Vec3 (- 1 / 2) (1 / 2) 0" "Vec3 (- 1 / 4) (- 1 / 2) 0" "Vec3 (1 / 4) (- 1 / 2) 0"
              "Vec3 (1 / 2) (1 / 2) 0"
              "[Vec3 (- 1 / 2) (1 / 2) 0, Vec3 (- 1 / 4) (- 1 / 2) 0, Vec3 (1 / 4) (- 1 / 2) 0,
                Vec3 (1 / 2) (1 / 2) 0, Vec3 1 0 0]"
              "\<lparr>uniform = True, chordal = True, centripetal = False\<rparr>"]
  by (auto simp del: upt_Suc)

section \<open>One iteration of the subdivision loop\<close>

lemma lp_loop_eq:
  "i \<le> length top' - 1 \<Longrightarrow>
   lp_loop top' i lp = lp + sum_list (map (\<lambda>i. vec3_dist (top' ! i) (top' ! (i + 1))) [i..<length top' - 1])"
proof (induction top' i lp rule: lp_loop.induct)
  case (1 top' i lp)
  show ?case
  proof (cases "i < length top' - 1")
    case True
    then have "[i..<length top' - 1] = i # [Suc i..<length top' - 1]" by (simp add: upt_conv_Cons)
    with True "1.IH"[OF True] show ?thesis
      by (subst lp_loop.simps) simp
  next
    case False
    then show ?thesis by (subst lp_loop.simps) simp
  qed
qed

lemma lp_loop_polygon_length: "lp_loop top' 0 0 = polygon_length top'"
  by (simp add: lp_loop_eq polygon_length_def)

lemma length_de_casteljau_round [simp]: "length (de_casteljau_round t bs) = length bs - 1"
  by (simp add: de_casteljau_round_def)

lemma length_dc_level [simp]: "length (dc_level top' j) = length top' - j"
  by (induction j) (simp_all add: dc_level_def)

lemma dc_level_0 [simp]: "dc_level top' 0 = top'"
  by (simp add: dc_level_def)

lemma dc_level_Suc: "dc_level top' (Suc j) = de_casteljau_round (1 / 2) (dc_level top' j)"
  by (simp add: dc_level_def)

lemma dc_level_round: "dc_level (de_casteljau_round (1 / 2) top') j = dc_level top' (Suc j)"
  by (simp add: dc_level_def funpow_swap1)

lemma bisect_loop_eq:
  "bisect_loop points p1s p2s =
     (p1s @ map (\<lambda>j. dc_level points j ! 0) [1..<length points],
      p2s @ map (\<lambda>j. dc_level points j ! (length points - 1 - j)) [1..<length points])"
proof (induction points p1s p2s rule: bisect_loop.induct)
  case (1 points p1s p2s)
  show ?case
  proof (cases "length points > 1")
    case True
    define points' where "points' = butlast (lerp_loop (1 / 2) (length points - 1) 0 points)"
    have p': "points' = de_casteljau_round (1 / 2) points"
      by (simp only: points'_def lerp_pass_round)
    have len: "length points' = length points - 1" by (simp add: p')
    have "Suc (length points') = length points" using True by (simp add: len)
    then have "map Suc [1..<length points'] = [2..<length points]"
      by (simp only: map_Suc_upt numeral_2_eq_2 One_nat_def)
    moreover have "[1..<length points] = 1 # [2..<length points]"
      using True by (simp add: upt_conv_Cons numeral_2_eq_2)
    ultimately have upt: "[1..<length points] = 1 # map Suc [1..<length points']"
      by simp
    have "bisect_loop points p1s p2s =
          bisect_loop points' (p1s @ [vec3_clone (points' ! 0)])
                 (p2s @ [vec3_clone (points' ! (length points' - 1))])"
      using True by (subst bisect_loop.simps) (simp add: points'_def Let_def)
    also have "\<dots> =
       ((p1s @ [vec3_clone (points' ! 0)]) @ map (\<lambda>j. dc_level points' j ! 0) [1..<length points'],
        (p2s @ [vec3_clone (points' ! (length points' - 1))]) @
           map (\<lambda>j. dc_level points' j ! (length points' - 1 - j)) [1..<length points'])"
      using "1.IH"[OF True points'_def] .
    also have "\<dots> =
       (p1s @ map (\<lambda>j. dc_level points j ! 0) [1..<length points],
        p2s @ map (\<lambda>j. dc_level points j ! (length points - 1 - j)) [1..<length points])"
      unfolding upt by (simp add: o_def p' dc_level_round dc_level_Suc)
    finally show ?thesis .
  next
    case False
    then show ?thesis by (subst bisect_loop.simps) simp
  qed
qed

lemma bisect_halves:
  assumes "top' \<noteq> []"
  shows "bisect_loop (map vec3_clone top') [vec3_clone (top' ! 0)]
           [vec3_clone (top' ! (length top' - 1))] = (left_half top', rev (right_half top'))"
proof -
  have upt: "[0..<length top'] = 0 # [1..<length top']"
    using assms by (simp add: upt_conv_Cons)
  show ?thesis
    unfolding bisect_loop_eq left_half_def right_half_def upt by simp
qed

lemma subdivision_body_eq:
  assumes "3 \<le> length top'"
  shows "subdivision_body top' rest out =
     (if gravesen_error top' > 1 / 100000
      then Inr (left_half top' # right_half top' # rest, out)
      else Inr (rest, out @ [top' ! (length top' - 1)]))"
proof -
  from assms have ne: "top' \<noteq> []" by auto
  have c: "\<not> length top' < 2" "length top' \<noteq> 2" using assms by auto
  show ?thesis
    unfolding subdivision_body_def Let_def lp_loop_polygon_length gravesen_error_def
      chord_length_def bisect_halves[OF ne]
    by (simp only: c if_False prod.case rev_rev_ident)
qed

section \<open>The Euclidean norm\<close>

lemma sqrt3_triangle:
  fixes a b c x y z :: real
  shows "sqrt ((a + x)\<^sup>2 + (b + y)\<^sup>2 + (c + z)\<^sup>2)
           \<le> sqrt (a\<^sup>2 + b\<^sup>2 + c\<^sup>2) + sqrt (x\<^sup>2 + y\<^sup>2 + z\<^sup>2)"
proof -
  define r1 where "r1 = sqrt (a\<^sup>2 + b\<^sup>2)"
  define r2 where "r2 = sqrt (x\<^sup>2 + y\<^sup>2)"
  have r1: "0 \<le> r1" "r1\<^sup>2 = a\<^sup>2 + b\<^sup>2" by (simp_all add: r1_def)
  have r2: "0 \<le> r2" "r2\<^sup>2 = x\<^sup>2 + y\<^sup>2" by (simp_all add: r2_def)
  have "sqrt ((a + x)\<^sup>2 + (b + y)\<^sup>2) \<le> r1 + r2"
    unfolding r1_def r2_def by (rule real_sqrt_sum_squares_triangle_ineq)
  then have "(sqrt ((a + x)\<^sup>2 + (b + y)\<^sup>2))\<^sup>2 \<le> (r1 + r2)\<^sup>2"
    by (intro power_mono) simp_all
  then have "(a + x)\<^sup>2 + (b + y)\<^sup>2 \<le> (r1 + r2)\<^sup>2" by simp
  then have "sqrt ((a + x)\<^sup>2 + (b + y)\<^sup>2 + (c + z)\<^sup>2) \<le> sqrt ((r1 + r2)\<^sup>2 + (c + z)\<^sup>2)"
    by simp
  also have "\<dots> \<le> sqrt (r1\<^sup>2 + c\<^sup>2) + sqrt (r2\<^sup>2 + z\<^sup>2)"
    by (rule real_sqrt_sum_squares_triangle_ineq)
  finally show ?thesis by (simp add: r1 r2)
qed

lemma vnorm_triangle: "vnorm (vadd u w) \<le> vnorm u + vnorm w"
  by (cases u; cases w) (simp add: sqrt3_triangle)

lemma vnorm_scale: "vnorm (vscale r u) = \<bar>r\<bar> * vnorm u"
proof (cases u)
  case (Vec3 a b c)
  have "(r * a)\<^sup>2 + (r * b)\<^sup>2 + (r * c)\<^sup>2 = r\<^sup>2 * (a\<^sup>2 + b\<^sup>2 + c\<^sup>2)"
    by (simp add: power_mult_distrib algebra_simps)
  then show ?thesis using Vec3 by (simp add: real_sqrt_mult)
qed

lemma vnorm_nonneg [simp]: "0 \<le> vnorm u"
  by (cases u) simp

lemma vec3_dist_vnorm: "vec3_dist a b = vnorm (vsub b a)"
  by (cases a; cases b) (simp add: power2_eq_square)

lemma vnorm_vsub_swap: "vnorm (vsub a b) = vnorm (vsub b a)"
  by (cases a; cases b) (simp add: power2_commute)

lemma vnorm_diff_triangle: "vnorm (vsub a c) \<le> vnorm (vsub a b) + vnorm (vsub b c)"
proof -
  have "vsub a c = vadd (vsub a b) (vsub b c)" by (cases a; cases b; cases c) simp
  then show ?thesis by (simp add: vnorm_triangle)
qed

lemma vnorm_triangle_lower: "vnorm a - vnorm (vsub a b) \<le> vnorm b"
proof -
  have "a = vadd (vsub a b) b" by (cases a; cases b) simp
  then have "vnorm a \<le> vnorm (vsub a b) + vnorm b" using vnorm_triangle[of "vsub a b" b] by simp
  then show ?thesis by simp
qed

lemma second_diff_sym: "second_diff a b c = second_diff c b a"
proof -
  have "vsub (vsub c b) (vsub b a) = vsub (vsub a b) (vsub b c)"
    by (cases a; cases b; cases c) simp
  then show ?thesis by (simp add: second_diff_def)
qed

lemma second_diff_mid:
  "second_diff (mid a b) (mid b c) (mid c d) \<le> (second_diff a b c + second_diff b c d) / 2"
proof -
  have "vsub (vsub (mid c d) (mid b c)) (vsub (mid b c) (mid a b)) =
        vscale (1 / 2) (vadd (vsub (vsub c b) (vsub b a)) (vsub (vsub d c) (vsub c b)))"
    by (cases a; cases b; cases c; cases d) (simp add: field_simps)
  then have "second_diff (mid a b) (mid b c) (mid c d) =
        (1 / 2) * vnorm (vadd (vsub (vsub c b) (vsub b a)) (vsub (vsub d c) (vsub c b)))"
    by (simp add: second_diff_def vnorm_scale)
  also have "\<dots> \<le> (1 / 2) * (second_diff a b c + second_diff b c d)"
    unfolding second_diff_def by (intro mult_left_mono vnorm_triangle) simp
  finally show ?thesis by simp
qed

lemma second_diff_left:
  "second_diff a (mid a b) (mid (mid a b) (mid b c)) = second_diff a b c / 4"
proof -
  have "vsub (vsub (mid (mid a b) (mid b c)) (mid a b)) (vsub (mid a b) a) =
        vscale (1 / 4) (vsub (vsub c b) (vsub b a))"
    by (cases a; cases b; cases c) (simp add: field_simps)
  then show ?thesis by (simp add: second_diff_def vnorm_scale)
qed

lemma second_diff_right:
  "second_diff (mid (mid a b) (mid b c)) (mid b c) c = second_diff a b c / 4"
proof -
  have "vsub (vsub c (mid b c)) (vsub (mid b c) (mid (mid a b) (mid b c))) =
        vscale (1 / 4) (vsub (vsub c b) (vsub b a))"
    by (cases a; cases b; cases c) (simp add: field_simps)
  then show ?thesis by (simp add: second_diff_def vnorm_scale)
qed

section \<open>Bisection shrinks second differences\<close>

lemma de_casteljau_round_nth:
  "i < length bs - 1 \<Longrightarrow> de_casteljau_round t bs ! i = lerp_spec (bs ! i) (bs ! (i + 1)) t"
  by (simp add: de_casteljau_round_def)

lemma second_diff_le_round:
  assumes "second_diff_le ps c"
  shows "second_diff_le (de_casteljau_round (1 / 2) ps) c"
  unfolding second_diff_le_def
proof (intro allI impI)
  fix i assume "i + 2 < length (de_casteljau_round (1 / 2) ps)"
  then have i: "i + 3 < length ps" by simp
  have s1: "second_diff (ps ! i) (ps ! (i + 1)) (ps ! (i + 2)) \<le> c"
    using assms i by (simp add: second_diff_le_def)
  have s2: "second_diff (ps ! (i + 1)) (ps ! (i + 2)) (ps ! (i + 3)) \<le> c"
    using assms i by (auto simp: second_diff_le_def dest!: spec[of _ "i + 1"] simp: numeral_3_eq_3)
  have "second_diff (de_casteljau_round (1 / 2) ps ! i) (de_casteljau_round (1 / 2) ps ! (i + 1))
          (de_casteljau_round (1 / 2) ps ! (i + 2))
        = second_diff (mid (ps ! i) (ps ! (i + 1))) (mid (ps ! (i + 1)) (ps ! (i + 2)))
            (mid (ps ! (i + 2)) (ps ! (i + 3)))"
    using i by (simp add: de_casteljau_round_nth numeral_3_eq_3)
  also have "\<dots> \<le> (second_diff (ps ! i) (ps ! (i + 1)) (ps ! (i + 2))
                   + second_diff (ps ! (i + 1)) (ps ! (i + 2)) (ps ! (i + 3))) / 2"
    by (rule second_diff_mid)
  also have "\<dots> \<le> c" using s1 s2 by simp
  finally show "second_diff (de_casteljau_round (1 / 2) ps ! i)
       (de_casteljau_round (1 / 2) ps ! (i + 1)) (de_casteljau_round (1 / 2) ps ! (i + 2)) \<le> c" .
qed

lemma second_diff_le_level:
  "second_diff_le ps c \<Longrightarrow> second_diff_le (dc_level ps j) c"
  by (induction j) (simp_all add: dc_level_Suc second_diff_le_round)

lemma length_left_half [simp]: "length (left_half ps) = length ps"
  by (simp add: left_half_def)

lemma length_right_half [simp]: "length (right_half ps) = length ps"
  by (simp add: right_half_def)

lemma left_half_nth: "j < length ps \<Longrightarrow> left_half ps ! j = dc_level ps j ! 0"
  by (simp add: left_half_def)

lemma right_half_nth:
  assumes "i < length ps"
  shows "right_half ps ! i = dc_level ps (length ps - 1 - i) ! i"
proof -
  have "right_half ps ! i =
        map (\<lambda>j. dc_level ps j ! (length ps - 1 - j)) [0..<length ps] ! (length ps - Suc i)"
    using assms by (simp add: right_half_def rev_nth)
  also have "\<dots> = dc_level ps (length ps - Suc i) ! (length ps - 1 - (length ps - Suc i))"
    using assms by (subst nth_map) simp_all
  also have "length ps - 1 - (length ps - Suc i) = i" using assms by simp
  finally show ?thesis by simp
qed

lemma second_diff_le_left_half:
  assumes "second_diff_le ps c"
  shows "second_diff_le (left_half ps) (c / 4)"
  unfolding second_diff_le_def
proof (intro allI impI)
  fix j assume "j + 2 < length (left_half ps)"
  then have j: "j + 2 < length ps" by simp
  define q where "q = dc_level ps j"
  have lq: "length q = length ps - j" by (simp add: q_def)
  have q3: "2 < length q" using j lq by simp
  have "second_diff (q ! 0) (q ! 1) (q ! 2) \<le> c"
    using second_diff_le_level[OF assms, of j] q3
    by (auto simp: second_diff_le_def q_def numeral_2_eq_2 dest!: spec[of _ 0])
  moreover have "left_half ps ! j = q ! 0" using j by (simp add: left_half_nth q_def)
  moreover have "left_half ps ! (j + 1) = mid (q ! 0) (q ! 1)"
    using j q3 by (simp add: left_half_nth q_def dc_level_Suc de_casteljau_round_nth)
  moreover have "left_half ps ! (j + 2) = mid (mid (q ! 0) (q ! 1)) (mid (q ! 1) (q ! 2))"
  proof -
    have "left_half ps ! (j + 2) = de_casteljau_round (1 / 2) (de_casteljau_round (1 / 2) q) ! 0"
      using j by (simp add: left_half_nth q_def dc_level_Suc)
    then show ?thesis using q3
      by (simp add: de_casteljau_round_nth numeral_2_eq_2)
  qed
  ultimately show "second_diff (left_half ps ! j) (left_half ps ! (j + 1)) (left_half ps ! (j + 2))
                   \<le> c / 4"
    by (simp add: second_diff_left)
qed

lemma second_diff_le_right_half:
  assumes "second_diff_le ps c"
  shows "second_diff_le (right_half ps) (c / 4)"
  unfolding second_diff_le_def
proof (intro allI impI)
  fix i assume "i + 2 < length (right_half ps)"
  then have i: "i + 2 < length ps" by simp
  define q where "q = dc_level ps (length ps - 1 - (i + 2))"
  have lq: "length q = i + 3" using i by (simp add: q_def)
  have "second_diff (q ! i) (q ! (i + 1)) (q ! (i + 2)) \<le> c"
    using second_diff_le_level[OF assms, of "length ps - 1 - (i + 2)"] lq
    by (auto simp: second_diff_le_def q_def)
  moreover have "right_half ps ! (i + 2) = q ! (i + 2)"
    using i by (simp add: right_half_nth q_def)
  moreover have l1: "dc_level ps (length ps - 1 - (i + 1)) = de_casteljau_round (1 / 2) q"
  proof -
    have "length ps - 1 - (i + 1) = Suc (length ps - 1 - (i + 2))" using i by simp
    then show ?thesis by (simp only: dc_level_Suc q_def)
  qed
  moreover have l2: "dc_level ps (length ps - 1 - i) =
                     de_casteljau_round (1 / 2) (de_casteljau_round (1 / 2) q)"
  proof -
    have "length ps - 1 - i = Suc (length ps - 1 - (i + 1))" using i by simp
    then show ?thesis by (simp only: dc_level_Suc l1)
  qed
  moreover have "right_half ps ! (i + 1) = mid (q ! (i + 1)) (q ! (i + 2))"
  proof -
    have "right_half ps ! (i + 1) = dc_level ps (length ps - 1 - (i + 1)) ! (i + 1)"
      by (rule right_half_nth) (use i in simp)
    also have "\<dots> = de_casteljau_round (1 / 2) q ! (i + 1)" by (simp only: l1)
    also have "\<dots> = mid (q ! (i + 1)) (q ! (i + 1 + 1))"
      by (rule de_casteljau_round_nth) (use lq in simp)
    finally show ?thesis by simp
  qed
  moreover have "right_half ps ! i =
      mid (mid (q ! i) (q ! (i + 1))) (mid (q ! (i + 1)) (q ! (i + 2)))"
  proof -
    have "right_half ps ! i = dc_level ps (length ps - 1 - i) ! i"
      by (rule right_half_nth) (use i in simp)
    also have "\<dots> = de_casteljau_round (1 / 2) (de_casteljau_round (1 / 2) q) ! i"
      by (simp only: l2)
    also have "\<dots> = mid (de_casteljau_round (1 / 2) q ! i) (de_casteljau_round (1 / 2) q ! (i + 1))"
      by (rule de_casteljau_round_nth) (use lq in simp)
    also have "de_casteljau_round (1 / 2) q ! i = mid (q ! i) (q ! (i + 1))"
      by (rule de_casteljau_round_nth) (use lq in simp)
    also have "de_casteljau_round (1 / 2) q ! (i + 1) = mid (q ! (i + 1)) (q ! (i + 1 + 1))"
      by (rule de_casteljau_round_nth) (use lq in simp)
    finally show ?thesis by simp
  qed
  ultimately show "second_diff (right_half ps ! i) (right_half ps ! (i + 1))
                     (right_half ps ! (i + 2)) \<le> c / 4"
    by (simp add: second_diff_right)
qed

section \<open>The error estimate is bounded by the second differences\<close>

lemma second_diff_leD:
  "second_diff_le ps c \<Longrightarrow> i + 2 < length ps \<Longrightarrow>
   vnorm (vsub (vsub (ps ! (i + 2)) (ps ! (i + 1))) (vsub (ps ! (i + 1)) (ps ! i))) \<le> c"
  unfolding second_diff_le_def second_diff_def by blast

lemma edge_deviation:
  assumes "second_diff_le ps c"
  shows "i + 1 < length ps \<Longrightarrow>
         vnorm (vsub (vsub (ps ! (i + 1)) (ps ! i)) (vsub (ps ! 1) (ps ! 0))) \<le> real i * c"
proof (induction i)
  case 0
  have "vsub (vsub (ps ! 1) (ps ! 0)) (vsub (ps ! 1) (ps ! 0)) = Vec3 0 0 0"
    by (cases "ps ! 1"; cases "ps ! 0") simp
  then show ?case by simp
next
  case (Suc i)
  have "vnorm (vsub (vsub (ps ! (Suc i + 1)) (ps ! Suc i)) (vsub (ps ! 1) (ps ! 0)))
        \<le> vnorm (vsub (vsub (ps ! (Suc i + 1)) (ps ! Suc i)) (vsub (ps ! (i + 1)) (ps ! i)))
          + vnorm (vsub (vsub (ps ! (i + 1)) (ps ! i)) (vsub (ps ! 1) (ps ! 0)))"
    by (rule vnorm_diff_triangle)
  also have "\<dots> \<le> c + real i * c"
    using second_diff_leD[OF assms, of i] Suc by (simp add: add_mono)
  finally show ?case by (simp add: algebra_simps)
qed

lemma second_diff_le_nonneg:
  assumes "second_diff_le ps c" and "3 \<le> length ps"
  shows "0 \<le> c"
proof -
  have "0 + 2 < length ps" using assms(2) by simp
  from second_diff_leD[OF assms(1) this]
  have "vnorm (vsub (vsub (ps ! (0 + 2)) (ps ! (0 + 1))) (vsub (ps ! (0 + 1)) (ps ! 0))) \<le> c" .
  moreover have "0 \<le> vnorm (vsub (vsub (ps ! (0 + 2)) (ps ! (0 + 1))) (vsub (ps ! (0 + 1)) (ps ! 0)))"
    by (rule vnorm_nonneg)
  ultimately show ?thesis by linarith
qed

lemma edge_length_bound:
  assumes "second_diff_le ps c" and "i + 1 < length ps"
  shows "vec3_dist (ps ! i) (ps ! (i + 1)) \<le> vnorm (vsub (ps ! 1) (ps ! 0)) + real i * c"
proof -
  have "vnorm (vsub (ps ! (i + 1)) (ps ! i))
          - vnorm (vsub (vsub (ps ! (i + 1)) (ps ! i)) (vsub (ps ! 1) (ps ! 0)))
        \<le> vnorm (vsub (ps ! 1) (ps ! 0))"
    by (rule vnorm_triangle_lower)
  moreover have "vnorm (vsub (vsub (ps ! (i + 1)) (ps ! i)) (vsub (ps ! 1) (ps ! 0))) \<le> real i * c"
    by (rule edge_deviation[OF assms])
  moreover have "vec3_dist (ps ! i) (ps ! (i + 1)) = vnorm (vsub (ps ! (i + 1)) (ps ! i))"
    by (rule vec3_dist_vnorm)
  ultimately show ?thesis by linarith
qed

lemma chord_deviation:
  assumes "second_diff_le ps c" and "0 \<le> c"
  shows "k < length ps \<Longrightarrow>
         vnorm (vsub (vscale (real k) (vsub (ps ! 1) (ps ! 0))) (vsub (ps ! k) (ps ! 0)))
           \<le> real k * (real k * c)"
proof (induction k)
  case 0
  have "vsub (vscale 0 (vsub (ps ! 1) (ps ! 0))) (vsub (ps ! 0) (ps ! 0)) = Vec3 0 0 0"
    by (cases "ps ! 1"; cases "ps ! 0") simp
  then show ?case by simp
next
  case (Suc k)
  let ?u = "vsub (ps ! 1) (ps ! 0)"
  have id: "vsub (vscale (real (Suc k)) ?u) (vsub (ps ! Suc k) (ps ! 0)) =
        vadd (vsub (vscale (real k) ?u) (vsub (ps ! k) (ps ! 0)))
             (vsub ?u (vsub (ps ! (k + 1)) (ps ! k)))"
    by (cases "ps ! 1"; cases "ps ! 0"; cases "ps ! k"; cases "ps ! Suc k")
       (simp add: algebra_simps)
  have "vnorm (vsub (vscale (real (Suc k)) ?u) (vsub (ps ! Suc k) (ps ! 0)))
        \<le> vnorm (vsub (vscale (real k) ?u) (vsub (ps ! k) (ps ! 0)))
          + vnorm (vsub ?u (vsub (ps ! (k + 1)) (ps ! k)))"
    unfolding id by (rule vnorm_triangle)
  also have "\<dots> \<le> real k * (real k * c) + real k * c"
  proof (intro add_mono)
    show "vnorm (vsub (vscale (real k) ?u) (vsub (ps ! k) (ps ! 0))) \<le> real k * (real k * c)"
      using Suc by simp
    have "vnorm (vsub (vsub (ps ! (k + 1)) (ps ! k)) ?u) \<le> real k * c"
      using Suc.prems by (intro edge_deviation[OF assms(1)]) simp
    then show "vnorm (vsub ?u (vsub (ps ! (k + 1)) (ps ! k))) \<le> real k * c"
      by (simp only: vnorm_vsub_swap[of ?u])
  qed
  also have "\<dots> \<le> real (Suc k) * (real (Suc k) * c)"
  proof -
    have "real (Suc k) * (real (Suc k) * c) = real k * (real k * c) + real k * c + (real k + 1) * c"
      by (simp add: algebra_simps)
    moreover have "0 \<le> (real k + 1) * c" using assms(2) by simp
    ultimately show ?thesis by linarith
  qed
  finally show ?case .
qed

lemma polygon_length_bound:
  assumes "second_diff_le ps c" and "0 \<le> c" and "2 \<le> length ps"
  shows "polygon_length ps \<le> real (length ps - 1) * vnorm (vsub (ps ! 1) (ps ! 0))
                              + real (length ps - 1) * (real (length ps - 1) * c)"
proof -
  let ?n = "length ps - 1"
  let ?B = "vnorm (vsub (ps ! 1) (ps ! 0)) + real ?n * c"
  have "vec3_dist (ps ! i) (ps ! (i + 1)) \<le> ?B" if "i < ?n" for i
  proof -
    have "vec3_dist (ps ! i) (ps ! (i + 1)) \<le> vnorm (vsub (ps ! 1) (ps ! 0)) + real i * c"
      using that by (intro edge_length_bound[OF assms(1)]) simp
    moreover have "real i * c \<le> real ?n * c"
      using that assms(2) by (intro mult_right_mono) simp_all
    ultimately show ?thesis by linarith
  qed
  then have "sum (\<lambda>i. vec3_dist (ps ! i) (ps ! (i + 1))) {0..<?n} \<le> real (card {0..<?n}) * ?B"
    by (intro sum_bounded_above) simp
  moreover have "polygon_length ps = sum (\<lambda>i. vec3_dist (ps ! i) (ps ! (i + 1))) {0..<?n}"
    unfolding polygon_length_def by (simp only: interv_sum_list_conv_sum_set_nat set_upt)
  moreover have "real (card {0..<?n}) * ?B =
     real ?n * vnorm (vsub (ps ! 1) (ps ! 0)) + real ?n * (real ?n * c)"
    by (simp add: distrib_left)
  ultimately show ?thesis by linarith
qed

lemma chord_length_bound:
  assumes "second_diff_le ps c" and "0 \<le> c" and "2 \<le> length ps"
  shows "real (length ps - 1) * vnorm (vsub (ps ! 1) (ps ! 0))
           - real (length ps - 1) * (real (length ps - 1) * c) \<le> chord_length ps"
proof -
  let ?n = "length ps - 1"
  let ?u = "vsub (ps ! 1) (ps ! 0)"
  have "vnorm (vscale (real ?n) ?u) - vnorm (vsub (vscale (real ?n) ?u) (vsub (ps ! ?n) (ps ! 0)))
        \<le> vnorm (vsub (ps ! ?n) (ps ! 0))"
    by (rule vnorm_triangle_lower)
  moreover have "vnorm (vsub (vscale (real ?n) ?u) (vsub (ps ! ?n) (ps ! 0)))
                 \<le> real ?n * (real ?n * c)"
    using assms by (intro chord_deviation) simp_all
  ultimately show ?thesis
    by (simp add: chord_length_def vec3_dist_vnorm vnorm_scale)
qed

lemma gravesen_error_bound:
  assumes "second_diff_le ps c" and "3 \<le> length ps"
  shows "gravesen_error ps \<le> 2 * (real (length ps - 1) * (real (length ps - 1) * c))"
proof -
  let ?n = "real (length ps - 1)"
  have c: "0 \<le> c" using assms by (rule second_diff_le_nonneg)
  have n: "2 \<le> ?n" using assms(2) by simp
  have B: "0 \<le> 2 * (?n * (?n * c))" using c by simp
  have "polygon_length ps - chord_length ps \<le> 2 * (?n * (?n * c))"
    using polygon_length_bound[OF assms(1) c] chord_length_bound[OF assms(1) c] assms(2)
    by simp
  moreover have f: "0 \<le> (?n - 1) / (?n + 1)" "(?n - 1) / (?n + 1) \<le> 1"
  proof -
    show "0 \<le> (?n - 1) / (?n + 1)" using n by (intro divide_nonneg_nonneg) linarith+
    have "0 < ?n + 1" using n by linarith
    then show "(?n - 1) / (?n + 1) \<le> 1" by (simp only: divide_le_eq_1_pos)
  qed
  ultimately have "(?n - 1) / (?n + 1) * (polygon_length ps - chord_length ps)
                   \<le> (?n - 1) / (?n + 1) * (2 * (?n * (?n * c)))"
    by (intro mult_left_mono) simp_all
  also have "\<dots> \<le> 1 * (2 * (?n * (?n * c)))"
    using f B by (intro mult_right_mono) simp_all
  finally show ?thesis by (simp add: gravesen_error_def Let_def)
qed

section \<open>The subdivision loop terminates in exact arithmetic\<close>

text \<open>
  The facts of this section are about the model without rounding: there a bisection
  divides the second differences of the control polygon by four, so the error estimate
  falls below the threshold after finitely many levels. With single-precision stores
  a bisection can give back the sequence it was given, and the loop need not be left;
  that model has its own sections below.
\<close>

lemma subdivision_loop_unfold:
  assumes "3 \<le> length top'"
  shows "subdivision_loop (top' # rest) out =
     (if gravesen_error top' > 1 / 100000
      then subdivision_loop (left_half top' # right_half top' # rest) out
      else subdivision_loop rest (out @ [top' ! (length top' - 1)]))"
  by (subst subdivision_loop.simps) (simp add: subdivision_body_eq[OF assms])

lemma right_half_last:
  assumes "ps \<noteq> []"
  shows "right_half ps ! (length ps - 1) = ps ! (length ps - 1)"
  using assms right_half_nth[of "length ps - 1" ps] by simp

lemma subdivision_loop_emits:
  assumes "3 \<le> length top'" and "second_diff_le top' c"
    and "2 * (real (length top' - 1) * (real (length top' - 1) * c)) \<le> 4 ^ k * (1 / 100000)"
  shows "\<exists>out'. out' \<noteq> [] \<and> last out' = top' ! (length top' - 1) \<and>
           (\<forall>rest out. subdivision_loop (top' # rest) out = subdivision_loop rest (out @ out'))"
  using assms
proof (induction k arbitrary: top' c)
  case 0
  have "gravesen_error top' \<le> 1 / 100000"
    using gravesen_error_bound[OF "0.prems"(2,1)] "0.prems"(3) by simp
  then have "\<forall>rest out. subdivision_loop (top' # rest) out =
               subdivision_loop rest (out @ [top' ! (length top' - 1)])"
    by (simp add: subdivision_loop_unfold[OF "0.prems"(1)])
  then show ?case by (intro exI[of _ "[top' ! (length top' - 1)]"]) simp
next
  case (Suc k)
  show ?case
  proof (cases "gravesen_error top' > 1 / 100000")
    case False
    then have "\<forall>rest out. subdivision_loop (top' # rest) out =
               subdivision_loop rest (out @ [top' ! (length top' - 1)])"
      by (simp add: subdivision_loop_unfold[OF Suc.prems(1)])
    then show ?thesis by (intro exI[of _ "[top' ! (length top' - 1)]"]) simp
  next
    case True
    let ?n = "real (length top' - 1)"
    have "2 * (?n * (?n * (c / 4))) = (2 * (?n * (?n * c))) / 4" by simp
    also have "\<dots> \<le> (4 ^ Suc k * (1 / 100000)) / 4"
      using Suc.prems(3) by (intro divide_right_mono) simp_all
    finally have bound: "2 * (?n * (?n * (c / 4))) \<le> 4 ^ k * (1 / 100000)" by simp
    have "\<exists>o1. o1 \<noteq> [] \<and> last o1 = left_half top' ! (length (left_half top') - 1) \<and>
           (\<forall>rest out. subdivision_loop (left_half top' # rest) out =
                        subdivision_loop rest (out @ o1))"
      using Suc.prems(1) bound
      by (intro Suc.IH[of "left_half top'" "c / 4"] second_diff_le_left_half[OF Suc.prems(2)])
         simp_all
    then obtain o1 where o1: "o1 \<noteq> []"
      "\<And>rest out. subdivision_loop (left_half top' # rest) out = subdivision_loop rest (out @ o1)"
      by blast
    have "\<exists>o2. o2 \<noteq> [] \<and> last o2 = right_half top' ! (length (right_half top') - 1) \<and>
           (\<forall>rest out. subdivision_loop (right_half top' # rest) out =
                        subdivision_loop rest (out @ o2))"
      using Suc.prems(1) bound
      by (intro Suc.IH[of "right_half top'" "c / 4"] second_diff_le_right_half[OF Suc.prems(2)])
         simp_all
    then obtain o2 where o2: "o2 \<noteq> []"
      "last o2 = right_half top' ! (length (right_half top') - 1)"
      "\<And>rest out. subdivision_loop (right_half top' # rest) out = subdivision_loop rest (out @ o2)"
      by blast
    have ne: "top' \<noteq> []" using Suc.prems(1) by auto
    have "last (o1 @ o2) = top' ! (length top' - 1)"
      using o2(1,2) right_half_last[OF ne] by simp
    moreover have "subdivision_loop (top' # rest) out = subdivision_loop rest (out @ (o1 @ o2))"
      for rest out
      using True by (simp add: subdivision_loop_unfold[OF Suc.prems(1)] o1(2) o2(3))
    ultimately show ?thesis using o1(1) by (intro exI[of _ "o1 @ o2"]) simp
  qed
qed

lemma second_diff_le_exists: "\<exists>c. second_diff_le ps c"
proof -
  let ?f = "\<lambda>i. second_diff (ps ! i) (ps ! (i + 1)) (ps ! (i + 2))"
  have "?f i \<le> sum ?f {..<length ps}" if "i + 2 < length ps" for i
    using that by (intro member_le_sum) (simp_all add: second_diff_def)
  then show ?thesis unfolding second_diff_le_def by blast
qed

lemma power4_bound_exists: "\<exists>k. (y::real) \<le> 4 ^ k * (1 / 100000)"
proof -
  obtain k where "y * 100000 < 4 ^ k" using real_arch_pow[of 4 "y * 100000"] by auto
  then have "y \<le> 4 ^ k * (1 / 100000)" by simp
  then show ?thesis ..
qed

lemma adaptiveSubdivision_returns:
  assumes "2 \<le> length ps"
  shows "\<exists>out. adaptiveSubdivision ps = Some (Inr out) \<and> out \<noteq> [] \<and>
           out ! 0 = ps ! 0 \<and> last out = ps ! (length ps - 1) \<and>
           (length ps = 2 \<longrightarrow> out = ps)"
proof (cases "length ps = 2")
  case True
  then have "ps \<noteq> []" by auto
  with True show ?thesis
    by (simp add: adaptiveSubdivision_def last_conv_nth)
next
  case False
  with assms have len: "3 \<le> length ps" by simp
  obtain c where c: "second_diff_le ps c" using second_diff_le_exists by blast
  obtain k where k: "2 * (real (length ps - 1) * (real (length ps - 1) * c)) \<le> 4 ^ k * (1 / 100000)"
    using power4_bound_exists by blast
  from subdivision_loop_emits[OF len c k]
  obtain out' where out': "out' \<noteq> []" "last out' = ps ! (length ps - 1)"
    "\<And>rest out. subdivision_loop (ps # rest) out = subdivision_loop rest (out @ out')"
    by blast
  have "adaptiveSubdivision ps = subdivision_loop [] ([ps ! 0] @ out')"
    using len by (simp add: adaptiveSubdivision_def out'(3))
  also have "\<dots> = Some (Inr ([ps ! 0] @ out'))"
    by (subst subdivision_loop.simps) simp
  finally show ?thesis using out'(1,2) False by simp
qed

section \<open>The bisection test\<close>

lemma sqrt_9 [simp]: "sqrt 9 = 3"
  using real_sqrt_abs[of 3] by simp

lemma sqrt_16 [simp]: "sqrt 16 = 4"
  using real_sqrt_abs[of 4] by simp

lemma sqrt_25 [simp]: "sqrt 25 = 5"
  using real_sqrt_abs[of 5] by simp

text \<open>
  Claim C5. An iteration that pops a sequence of three or more points bisects it exactly
  when the error estimate exceeds \<open>1e-5\<close>: then the output is unchanged and the left half
  is pushed on top of the right half, so the loop goes on with the left half; otherwise
  the stack keeps the remaining entries and the last point of the sequence is appended
  to the output.
\<close>

theorem subdivision_step:
  assumes "3 \<le> length top'"
  shows "(gravesen_error top' > 1 / 100000 \<longrightarrow>
            subdivision_body top' rest out = Inr (left_half top' # right_half top' # rest, out) \<and>
            subdivision_loop (top' # rest) out =
              subdivision_loop (left_half top' # right_half top' # rest) out) \<and>
         (\<not> gravesen_error top' > 1 / 100000 \<longrightarrow>
            subdivision_body top' rest out = Inr (rest, out @ [top' ! (length top' - 1)]) \<and>
            subdivision_loop (top' # rest) out =
              subdivision_loop rest (out @ [top' ! (length top' - 1)])) \<and>
         ((\<exists>l r. subdivision_body top' rest out = Inr (l # r # rest, out)) \<longleftrightarrow>
            gravesen_error top' > 1 / 100000)"
  using assms
  by (auto simp: subdivision_body_eq subdivision_loop_unfold)

theorem subdivision_step_witness:
  "3 \<le> length [Vec3 0 0 0, Vec3 3 0 0, Vec3 3 4 0] \<and>
   gravesen_error [Vec3 0 0 0, Vec3 3 0 0, Vec3 3 4 0] = 2 / 3 \<and>
   subdivision_body [Vec3 0 0 0, Vec3 3 0 0, Vec3 3 4 0] [] [Vec3 0 0 0] =
     Inr ([[Vec3 0 0 0, Vec3 (3 / 2) 0 0, Vec3 (9 / 4) 1 0],
           [Vec3 (9 / 4) 1 0, Vec3 3 2 0, Vec3 3 4 0]], [Vec3 0 0 0]) \<and>
   3 \<le> length [Vec3 0 0 0, Vec3 3 0 0, Vec3 9 0 0] \<and>
   gravesen_error [Vec3 0 0 0, Vec3 3 0 0, Vec3 9 0 0] = 0 \<and>
   subdivision_body [Vec3 0 0 0, Vec3 3 0 0, Vec3 9 0 0] [] [Vec3 0 0 0] =
     Inr ([], [Vec3 0 0 0, Vec3 9 0 0])"
proof -
  have e1: "gravesen_error [Vec3 0 0 0, Vec3 3 0 0, Vec3 3 4 0] = 2 / 3"
    by (simp add: gravesen_error_def polygon_length_def chord_length_def)
  have e2: "gravesen_error [Vec3 0 0 0, Vec3 3 0 0, Vec3 9 0 0] = 0"
    by (simp add: gravesen_error_def polygon_length_def chord_length_def)
  have l: "left_half [Vec3 0 0 0, Vec3 3 0 0, Vec3 3 4 0] =
           [Vec3 0 0 0, Vec3 (3 / 2) 0 0, Vec3 (9 / 4) 1 0]"
    by (simp add: left_half_def dc_level_def de_casteljau_round_def numeral_2_eq_2)
  have r: "right_half [Vec3 0 0 0, Vec3 3 0 0, Vec3 3 4 0] =
           [Vec3 (9 / 4) 1 0, Vec3 3 2 0, Vec3 3 4 0]"
    by (simp add: right_half_def dc_level_def de_casteljau_round_def numeral_2_eq_2)
  show ?thesis
    using subdivision_step [of "[Vec3 0 0 0, Vec3 3 0 0, Vec3 3 4 0]" "[]" "[Vec3 0 0 0]"]
          subdivision_step [of "[Vec3 0 0 0, Vec3 3 0 0, Vec3 9 0 0]" "[]" "[Vec3 0 0 0]"]
    by (simp add: e1 e2 l r)
qed

section \<open>Invalid input\<close>

text \<open>
  Claim C7. Each evaluator throws exactly when it receives fewer control points than its
  minimum (2 for \<^verbatim>\<open>evaluateBezierCurve\<close>, \<^verbatim>\<open>adaptiveSubdivision\<close> and \<^verbatim>\<open>uniformBSpline\<close>,
  3 for \<^verbatim>\<open>quadraticUniformBSpline\<close>, 4 for \<^verbatim>\<open>cubicCatmullRomSpline\<close>); the outcome is then
  the exception alone, and with at least the minimum it is a result.
\<close>

theorem insufficient_control_points:
  "((\<exists>e. evaluateBezierCurve ps ts = Inl e) \<longleftrightarrow> length ps < 2) \<and>
   (length ps < 2 \<longrightarrow>
      evaluateBezierCurve ps ts = Inl (Error ''At least 2 control points are required'')) \<and>
   (2 \<le> length ps \<longrightarrow> (\<exists>out. evaluateBezierCurve ps ts = Inr out)) \<and>
   ((\<exists>e. adaptiveSubdivision ps = Some (Inl e)) \<longleftrightarrow> length ps < 2) \<and>
   (length ps < 2 \<longrightarrow>
      adaptiveSubdivision ps = Some (Inl (Error ''At least 2 control points are required''))) \<and>
   (2 \<le> length ps \<longrightarrow> (\<exists>out. adaptiveSubdivision ps = Some (Inr out))) \<and>
   ((\<exists>e. uniformBSpline ps ts = Inl e) \<longleftrightarrow> length ps < 2) \<and>
   (length ps < 2 \<longrightarrow>
      uniformBSpline ps ts = Inl (Error ''At least 2 control points are required'')) \<and>
   (2 \<le> length ps \<longrightarrow> (\<exists>out. uniformBSpline ps ts = Inr out)) \<and>
   ((\<exists>e. quadraticUniformBSpline ps ts = Inl e) \<longleftrightarrow> length ps < 3) \<and>
   (length ps < 3 \<longrightarrow>
      quadraticUniformBSpline ps ts = Inl (Error ''At least 3 control points are required'')) \<and>
   (3 \<le> length ps \<longrightarrow> (\<exists>out. quadraticUniformBSpline ps ts = Inr out)) \<and>
   ((\<exists>e. cubicCatmullRomSpline ps kp = Inl e) \<longleftrightarrow> length ps < 4) \<and>
   (length ps < 4 \<longrightarrow>
      cubicCatmullRomSpline ps kp = Inl (Error ''At least 4 control points are required'')) \<and>
   (4 \<le> length ps \<longrightarrow> (\<exists>r. cubicCatmullRomSpline ps kp = Inr r))"
proof -
  have a: "(\<exists>e. adaptiveSubdivision ps = Some (Inl e)) \<longleftrightarrow> length ps < 2"
  proof (cases "length ps < 2")
    case True
    then show ?thesis by (simp add: adaptiveSubdivision_def)
  next
    case False
    then have "2 \<le> length ps" by simp
    from adaptiveSubdivision_returns[OF this] False show ?thesis by auto
  qed
  have b: "2 \<le> length ps \<longrightarrow> (\<exists>out. adaptiveSubdivision ps = Some (Inr out))"
    using adaptiveSubdivision_returns by blast
  have c: "length ps < 2 \<longrightarrow>
      adaptiveSubdivision ps = Some (Inl (Error ''At least 2 control points are required''))"
    by (simp add: adaptiveSubdivision_def)
  have d: "((\<exists>e. evaluateBezierCurve ps ts = Inl e) \<longleftrightarrow> length ps < 2) \<and>
   (length ps < 2 \<longrightarrow>
      evaluateBezierCurve ps ts = Inl (Error ''At least 2 control points are required'')) \<and>
   (2 \<le> length ps \<longrightarrow> (\<exists>out. evaluateBezierCurve ps ts = Inr out))"
    by (simp add: evaluateBezierCurve_def)
  have e: "((\<exists>e. uniformBSpline ps ts = Inl e) \<longleftrightarrow> length ps < 2) \<and>
   (length ps < 2 \<longrightarrow>
      uniformBSpline ps ts = Inl (Error ''At least 2 control points are required'')) \<and>
   (2 \<le> length ps \<longrightarrow> (\<exists>out. uniformBSpline ps ts = Inr out))"
    by (simp add: uniformBSpline_def)
  have f: "((\<exists>e. quadraticUniformBSpline ps ts = Inl e) \<longleftrightarrow> length ps < 3) \<and>
   (length ps < 3 \<longrightarrow>
      quadraticUniformBSpline ps ts = Inl (Error ''At least 3 control points are required'')) \<and>
   (3 \<le> length ps \<longrightarrow> (\<exists>out. quadraticUniformBSpline ps ts = Inr out))"
    by (simp add: quadraticUniformBSpline_def)
  have g: "((\<exists>e. cubicCatmullRomSpline ps kp = Inl e) \<longleftrightarrow> length ps < 4) \<and>
   (length ps < 4 \<longrightarrow>
      cubicCatmullRomSpline ps kp = Inl (Error ''At least 4 control points are required'')) \<and>
   (4 \<le> length ps \<longrightarrow> (\<exists>r. cubicCatmullRomSpline ps kp = Inr r))"
    by (simp add: cubicCatmullRomSpline_def)
  from a b c d e f g show ?thesis by blast
qed

theorem insufficient_control_points_witness:
  "evaluateBezierCurve [Vec3 0 0 0] [0, 1]
     = Inl (Error ''At least 2 control points are required'') \<and>
   adaptiveSubdivision [Vec3 0 0 0]
     = Some (Inl (Error ''At least 2 control points are required'')) \<and>
   uniformBSpline [Vec3 0 0 0] [0, 1]
     = Inl (Error ''At least 2 control points are required'') \<and>
   quadraticUniformBSpline [Vec3 0 0 0, Vec3 3 0 0] [0, 1]
     = Inl (Error ''At least 3 control points are required'') \<and>
   cubicCatmullRomSpline [Vec3 0 0 0, Vec3 3 0 0, Vec3 3 4 0]
       \<lparr>uniform = True, chordal = True, centripetal = True\<rparr>
     = Inl (Error ''At least 4 control points are required'') \<and>
   (\<exists>out. evaluateBezierCurve [Vec3 0 0 0, Vec3 3 0 0] [0, 1] = Inr out) \<and>
   (\<exists>out. adaptiveSubdivision [Vec3 0 0 0, Vec3 3 0 0, Vec3 3 4 0] = Some (Inr out)) \<and>
   (\<exists>out. uniformBSpline [Vec3 0 0 0, Vec3 3 0 0] [0, 1] = Inr out) \<and>
   (\<exists>out. quadraticUniformBSpline [Vec3 0 0 0, Vec3 3 0 0, Vec3 3 4 0] [0, 1] = Inr out) \<and>
   (\<exists>r. cubicCatmullRomSpline [Vec3 0 0 0, Vec3 3 0 0, Vec3 3 4 0, Vec3 0 4 0]
           \<lparr>uniform = True, chordal = True, centripetal = True\<rparr> = Inr r)"
  using insufficient_control_points [of "[Vec3 0 0 0]" "[0, 1]"]
        insufficient_control_points [of "[Vec3 0 0 0, Vec3 3 0 0]" "[0, 1]"]
        insufficient_control_points [of "[Vec3 0 0 0, Vec3 3 0 0, Vec3 3 4 0]" "[0, 1]"
           "\<lparr>uniform = True, chordal = True, centripetal = True\<rparr>"]
        insufficient_control_points [of "[Vec3 0 0 0, Vec3 3 0 0, Vec3 3 4 0, Vec3 0 4 0]" "[0, 1]"
           "\<lparr>uniform = True, chordal = True, centripetal = True\<rparr>"]
  by simp

section \<open>Single-precision stores\<close>

lemma fround_binade:
  assumes "2 powr of_int e \<le> \<bar>x\<bar>" and "\<bar>x\<bar> < 2 powr (of_int e + 1)" and "- 126 \<le> e"
  shows "fround x = 2 powr (of_int e - 23) * of_int (round_even (x / 2 powr (of_int e - 23)))"
proof -
  have pos: "0 < \<bar>x\<bar>" using assms(1) by (smt (verit) powr_gt_zero)
  have "of_int e \<le> log 2 \<bar>x\<bar>" using assms(1) pos by (simp add: le_log_iff)
  moreover have "log 2 \<bar>x\<bar> < of_int e + 1" using assms(2) pos by (simp add: log_less_iff)
  ultimately have "\<lfloor>log 2 \<bar>x\<bar>\<rfloor> = e" by (simp add: floor_eq_iff)
  moreover have "x \<noteq> 0" using pos by auto
  ultimately show ?thesis using assms(3) by (simp add: fround_def Let_def max_def)
qed

lemma fround_0 [simp]: "fround 0 = 0"
  by (simp add: fround_def)

text \<open>Between \<open>2 ^ 23\<close> and \<open>2 ^ 24\<close> the single-precision numbers are the integers.\<close>

lemma fround_2_23:
  assumes "2 ^ 23 \<le> \<bar>x\<bar>" and "\<bar>x\<bar> < 2 ^ 24"
  shows "fround x = of_int (round_even x)"
  using fround_binade[of 23 x] assms by (simp add: powr_numeral)

lemma fround_2_24:
  assumes "2 ^ 24 \<le> \<bar>x\<bar>" and "\<bar>x\<bar> < 2 ^ 25"
  shows "fround x = 2 * of_int (round_even (x / 2))"
  using fround_binade[of 24 x] assms by (simp add: powr_numeral)

lemma fround_2_0:
  assumes "1 \<le> \<bar>x\<bar>" and "\<bar>x\<bar> < 2"
  shows "fround x = of_int (round_even (x * 2 ^ 23)) / 2 ^ 23"
  using fround_binade[of 0 x] assms by (simp add: powr_minus powr_numeral field_simps)

lemma fround_2_m1:
  assumes "1 / 2 \<le> \<bar>x\<bar>" and "\<bar>x\<bar> < 1"
  shows "fround x = of_int (round_even (x * 2 ^ 24)) / 2 ^ 24"
  using fround_binade[of "- 1" x] assms by (simp add: powr_minus powr_numeral field_simps)

lemma fround_8388609 [simp]: "fround 8388609 = 8388609"
  by (simp add: fround_2_23 round_even_def)

lemma fround_8388610 [simp]: "fround 8388610 = 8388610"
  by (simp add: fround_2_23 round_even_def)

text \<open>The tie 8388609.5 goes to the even neighbour.\<close>

lemma fround_tie [simp]: "fround (16777219 / 2) = 8388610"
  by (simp add: fround_2_23 round_even_def Let_def)

lemma fround_16777217 [simp]: "fround 16777217 = 16777216"
  by (simp add: fround_2_24 round_even_def Let_def)

lemma fround_1 [simp]: "fround 1 = 1"
  by (simp add: fround_2_0 round_even_def)

lemma fround_half [simp]: "fround (1 / 2) = 1 / 2"
  by (simp add: fround_2_m1 round_even_def)

section \<open>The work-stack loop with single-precision stores\<close>

lemma length_lerp_loop_f32 [simp]: "length (lerp_loop_f32 t bound i points) = length points"
  by (induction t bound i points rule: lerp_loop_f32.induct) (subst lerp_loop_f32.simps, simp)









section \<open>A run that bisects once\<close>

lemma sqrt_quarter [simp]: "sqrt (1 / 4) = 1 / 2"
  using real_sqrt_abs[of "1 / 2"] by (simp add: power2_eq_square)





section \<open>A run that does not return\<close>





section \<open>Results of the adaptive subdivision with single-precision stores\<close>







section \<open>The store: regions and values\<close>

lemma bezier_reduce_gen: "bezier_reduce t points = reduce_gen 1 t points"
proof (induction t points rule: bezier_reduce.induct)
  case (1 t points)
  then show ?case
    by (subst bezier_reduce.simps, subst reduce_gen.simps) simp
qed

lemma uniform_reduce_gen: "uniform_reduce t points = reduce_gen 1 t points"
  by (simp add: uniform_reduce_bezier_reduce bezier_reduce_gen)

lemma quadratic_reduce_gen: "quadratic_reduce t points = reduce_gen 2 t points"
proof (induction t points rule: quadratic_reduce.induct)
  case (1 t points)
  then show ?case
    by (subst quadratic_reduce.simps, subst reduce_gen.simps) simp
qed

lemma length_reduce_gen:
  "keep \<le> length points \<Longrightarrow> length (reduce_gen keep t points) = keep"
proof (induction keep t points rule: reduce_gen.induct)
  case (1 keep t points)
  show ?case
  proof (cases "length points > keep")
    case True
    then show ?thesis using "1.IH"[OF True] by (subst reduce_gen.simps) simp
  next
    case False
    then show ?thesis using "1.prems" by (subst reduce_gen.simps) simp
  qed
qed

lemma valid_refs_simps [simp]:
  "valid_refs h []"
  "valid_refs h (r # rs) \<longleftrightarrow> r < length h \<and> valid_refs h rs"
  "valid_refs h (rs @ rs') \<longleftrightarrow> valid_refs h rs \<and> valid_refs h rs'"
  by (simp_all add: valid_refs_def)

lemma valid_refs_nth: "valid_refs h rs \<Longrightarrow> i < length rs \<Longrightarrow> rs ! i < length h"
  by (simp add: valid_refs_def list_all_length)

lemma valid_refs_append: "valid_refs h rs \<Longrightarrow> valid_refs (h @ ext) rs"
  by (auto simp: valid_refs_def list_all_iff)

lemma valid_refs_upt: "n + m \<le> length h \<Longrightarrow> valid_refs h [n..<n + m]"
  by (auto simp: valid_refs_def list_all_iff)

lemma values_of_simps [simp]:
  "values_of h [] = []"
  "values_of h (r # rs) = h ! r # values_of h rs"
  "values_of h (rs @ rs') = values_of h rs @ values_of h rs'"
  "length (values_of h rs) = length rs"
  by (simp_all add: values_of_def)

lemma values_of_nth: "i < length rs \<Longrightarrow> values_of h rs ! i = h ! (rs ! i)"
  by (simp add: values_of_def)

lemma values_of_append: "valid_refs h rs \<Longrightarrow> values_of (h @ ext) rs = values_of h rs"
  by (auto simp: valid_refs_def values_of_def list_all_iff nth_append)

lemma heap_le_append [simp]: "heap_le h (h @ ext)"
  by (simp add: heap_le_def)

lemma heap_le_refl [simp]: "heap_le h h"
  by (simp add: heap_le_def)

lemma heap_leD: "heap_le h h' \<Longrightarrow> \<exists>ext. h' = h @ ext"
  unfolding heap_le_def by (metis append_take_drop_id)

lemma heap_le_trans: "heap_le h h' \<Longrightarrow> heap_le h' h'' \<Longrightarrow> heap_le h h''"
  by (auto dest!: heap_leD)

lemma valid_refs_heap_le: "heap_le h h' \<Longrightarrow> valid_refs h rs \<Longrightarrow> valid_refs h' rs"
  by (auto dest!: heap_leD simp: valid_refs_append)

lemma values_of_heap_le: "heap_le h h' \<Longrightarrow> valid_refs h rs \<Longrightarrow> values_of h' rs = values_of h rs"
  by (auto dest!: heap_leD simp: values_of_append)

lemma values_of_region:
  "values_of (h0 @ vals @ junk) [length h0..<length h0 + length vals] = vals"
  by (intro nth_equalityI) (simp_all add: values_of_def nth_append)

lemma h_lerp_loop_region:
  "bound \<le> length vals - 1 \<Longrightarrow>
   h_lerp_loop t bound i [length h0..<length h0 + length vals] (h0 @ vals @ junk)
     = h0 @ lerp_loop t bound i vals @ junk"
proof (induction t bound i vals rule: lerp_loop.induct)
  case (1 t bound i vals)
  let ?points = "[length h0..<length h0 + length vals]"
  show ?case
  proof (cases "i < bound")
    case True
    with "1.prems" have i: "i + 1 < length vals" by simp
    let ?v = "vec3_lerp (vals ! i) (vals ! (i + 1)) t"
    have "h_lerp (?points ! i) (?points ! i) (?points ! (i + 1)) t (h0 @ vals @ junk)
          = h0 @ vals[i := ?v] @ junk"
      using i by (simp add: h_lerp_def nth_append list_update_append)
    moreover have "h_lerp_loop t bound (Suc i) [length h0..<length h0 + length (vals[i := ?v])]
          (h0 @ vals[i := ?v] @ junk) = h0 @ lerp_loop t bound (Suc i) (vals[i := ?v]) @ junk"
      using "1.prems" by (intro "1.IH"[OF True]) simp
    ultimately show ?thesis
      using True
      by (subst h_lerp_loop.simps, subst lerp_loop.simps) simp
  next
    case False
    then show ?thesis
      by (subst h_lerp_loop.simps, subst lerp_loop.simps) simp
  qed
qed

lemma butlast_upt_region: "butlast [n..<n + m] = [n..<n + (m - 1)]"
  by (cases m) simp_all

lemma h_reduce_region:
  "1 \<le> keep \<Longrightarrow>
   \<exists>junk'. h_reduce keep t [length h0..<length h0 + length vals] (h0 @ vals @ junk)
     = ([length h0..<length h0 + length (reduce_gen keep t vals)],
        h0 @ reduce_gen keep t vals @ junk')"
proof (induction keep t vals arbitrary: junk rule: reduce_gen.induct)
  case (1 keep t vals)
  show ?case
  proof (cases "length vals > keep")
    case True
    let ?L = "lerp_loop t (length vals - keep) 0 vals"
    have ne: "?L \<noteq> []" using True by (auto simp flip: length_0_conv)
    have split: "?L = butlast ?L @ [last ?L]" using ne by simp
    have "h_lerp_loop t (length vals - keep) 0 [length h0..<length h0 + length vals]
            (h0 @ vals @ junk) = h0 @ ?L @ junk"
      using "1.prems" by (intro h_lerp_loop_region) simp
    also have "\<dots> = h0 @ butlast ?L @ (last ?L # junk)"
      by (subst split) simp
    finally have heap: "h_lerp_loop t (length vals - keep) 0 [length h0..<length h0 + length vals]
            (h0 @ vals @ junk) = h0 @ butlast ?L @ (last ?L # junk)" .
    have pts: "butlast [length h0..<length h0 + length vals]
               = [length h0..<length h0 + length (butlast ?L)]"
      by (simp add: butlast_upt_region)
    from "1.IH"[OF True "1.prems", of "last ?L # junk"]
    obtain junk' where
      "h_reduce keep t [length h0..<length h0 + length (butlast ?L)]
         (h0 @ butlast ?L @ (last ?L # junk))
       = ([length h0..<length h0 + length (reduce_gen keep t (butlast ?L))],
          h0 @ reduce_gen keep t (butlast ?L) @ junk')"
      by blast
    then have "h_reduce keep t [length h0..<length h0 + length vals] (h0 @ vals @ junk)
       = ([length h0..<length h0 + length (reduce_gen keep t vals)],
          h0 @ reduce_gen keep t vals @ junk')"
      using True
      by (subst h_reduce.simps, subst (1 2) reduce_gen.simps) (simp add: heap pts)
    then show ?thesis by blast
  next
    case False
    then have "h_reduce keep t [length h0..<length h0 + length vals] (h0 @ vals @ junk)
       = ([length h0..<length h0 + length (reduce_gen keep t vals)],
          h0 @ reduce_gen keep t vals @ junk)"
      by (subst h_reduce.simps, subst (1 2) reduce_gen.simps) simp
    then show ?thesis by blast
  qed
qed

lemma h_map_clone_eq:
  "valid_refs h ps \<Longrightarrow>
   h_map_clone ps h = ([length h..<length h + length ps], h @ values_of h ps)"
proof (induction ps arbitrary: h)
  case Nil
  then show ?case by simp
next
  case (Cons p ps)
  then have p: "p < length h" and v: "valid_refs h ps" by simp_all
  have v': "valid_refs (h @ [h ! p]) ps" using v by (rule valid_refs_append)
  have vals: "values_of (h @ [h ! p]) ps = values_of h ps" using v by (rule values_of_append)
  have u: "[length h..<length h + length (p # ps)]
           = length h # [length (h @ [h ! p])..<length (h @ [h ! p]) + length ps]"
    by (simp add: upt_conv_Cons del: upt_Suc)
  show ?case
    unfolding u using Cons.IH[OF v'] vals
    by (simp add: h_clone_def new_vec3_def del: upt_Suc)
qed

section \<open>The reduction evaluators on the store\<close>

lemma h_eval_loop_refines:
  assumes "1 \<le> keep" and "idx < keep" and "keep \<le> length ps"
  shows "valid_refs h ps \<Longrightarrow> valid_refs h result \<Longrightarrow>
     \<exists>ext result'. h_eval_loop keep idx ps ts result h = (result', h @ ext) \<and>
        valid_refs (h @ ext) result' \<and>
        values_of (h @ ext) result' =
          values_of h result @ map (\<lambda>t. reduce_gen keep t (values_of h ps) ! idx) ts"
proof (induction ts arbitrary: result h)
  case Nil
  then have "h_eval_loop keep idx ps [] result h = (result, h @ []) \<and>
        valid_refs (h @ []) result \<and>
        values_of (h @ []) result =
          values_of h result @ map (\<lambda>t. reduce_gen keep t (values_of h ps) ! idx) []"
    by simp
  then show ?case by blast
next
  case (Cons t ts)
  let ?vals = "values_of h ps"
  let ?R = "reduce_gen keep t ?vals"
  have lenR: "length ?R = keep" using assms(3) by (simp add: length_reduce_gen)
  have clone: "h_map_clone ps h = ([length h..<length h + length ps], h @ ?vals)"
    using Cons.prems(1) by (simp add: h_map_clone_eq)
  obtain junk' where red:
    "h_reduce keep t [length h..<length h + length ps] (h @ ?vals)
       = ([length h..<length h + length ?R], h @ ?R @ junk')"
    using h_reduce_region[OF assms(1), of t h ?vals "[]"] by (auto simp del: upt_Suc)
  let ?h2 = "h @ ?R @ junk'"
  let ?r = "[length h..<length h + length ?R] ! idx"
  have r: "?r = length h + idx" using assms(2) lenR by simp
  have step: "h_eval_loop keep idx ps (t # ts) result h
              = h_eval_loop keep idx ps ts (result @ [?r]) ?h2"
    by (simp add: clone red del: upt_Suc)
  have v1: "valid_refs ?h2 ps" using Cons.prems(1) by (rule valid_refs_append)
  have v2: "valid_refs ?h2 (result @ [?r])"
    using Cons.prems(2) assms(2) lenR by (simp add: r valid_refs_append)
  from Cons.IH[OF v1 v2]
  obtain ext result' where IH:
    "h_eval_loop keep idx ps ts (result @ [?r]) ?h2 = (result', ?h2 @ ext)"
    "valid_refs (?h2 @ ext) result'"
    "values_of (?h2 @ ext) result' =
       values_of ?h2 (result @ [?r]) @ map (\<lambda>t. reduce_gen keep t (values_of ?h2 ps) ! idx) ts"
    by blast
  have e1: "values_of ?h2 ps = ?vals" using Cons.prems(1) by (rule values_of_append)
  have e2: "values_of ?h2 result = values_of h result"
    using Cons.prems(2) by (rule values_of_append)
  have e3: "?h2 ! ?r = ?R ! idx"
    using assms(2) lenR by (simp add: r nth_append)
  have "h_eval_loop keep idx ps (t # ts) result h = (result', h @ (?R @ junk' @ ext))"
    unfolding step using IH(1) by simp
  moreover have "valid_refs (h @ (?R @ junk' @ ext)) result'"
    using IH(2) by simp
  moreover have "values_of (h @ (?R @ junk' @ ext)) result' =
          values_of h result @ map (\<lambda>t. reduce_gen keep t ?vals ! idx) (t # ts)"
    using IH(3) by (simp add: e1 e2 e3 del: upt_Suc)
  ultimately show ?case by blast
qed

lemma h_evaluateBezierCurve_refines:
  assumes "valid_refs h ps"
  shows "result_values (h_evaluateBezierCurve ps ts h) = evaluateBezierCurve (values_of h ps) ts \<and>
         extends_heap h (h_evaluateBezierCurve ps ts h)"
proof (cases "length ps < 2")
  case True
  then show ?thesis
    by (simp add: h_evaluateBezierCurve_def evaluateBezierCurve_def result_values_def
          extends_heap_def)
next
  case False
  then have "1 \<le> (1::nat)" "0 < (1::nat)" "1 \<le> length ps" by simp_all
  from h_eval_loop_refines[OF this assms, of "[]" ts]
  obtain ext result' where "h_eval_loop 1 0 ps ts [] h = (result', h @ ext)"
    "valid_refs (h @ ext) result'"
    "values_of (h @ ext) result' = map (\<lambda>t. reduce_gen 1 t (values_of h ps) ! 0) ts"
    by auto
  with False show ?thesis
    by (simp add: h_evaluateBezierCurve_def evaluateBezierCurve_def result_values_def
          extends_heap_def bezier_reduce_gen)
qed

lemma h_uniformBSpline_refines:
  assumes "valid_refs h ps"
  shows "result_values (h_uniformBSpline ps ts h) = uniformBSpline (values_of h ps) ts \<and>
         extends_heap h (h_uniformBSpline ps ts h)"
proof (cases "length ps < 2")
  case True
  then show ?thesis
    by (simp add: h_uniformBSpline_def uniformBSpline_def result_values_def extends_heap_def)
next
  case False
  then have "1 \<le> (1::nat)" "0 < (1::nat)" "1 \<le> length ps" by simp_all
  from h_eval_loop_refines[OF this assms, of "[]" ts]
  obtain ext result' where "h_eval_loop 1 0 ps ts [] h = (result', h @ ext)"
    "valid_refs (h @ ext) result'"
    "values_of (h @ ext) result' = map (\<lambda>t. reduce_gen 1 t (values_of h ps) ! 0) ts"
    by auto
  with False show ?thesis
    by (simp add: h_uniformBSpline_def uniformBSpline_def result_values_def
          extends_heap_def uniform_reduce_gen)
qed

lemma h_quadraticUniformBSpline_refines:
  assumes "valid_refs h ps"
  shows "result_values (h_quadraticUniformBSpline ps ts h)
           = quadraticUniformBSpline (values_of h ps) ts \<and>
         extends_heap h (h_quadraticUniformBSpline ps ts h)"
proof (cases "length ps < 3")
  case True
  then show ?thesis
    by (simp add: h_quadraticUniformBSpline_def quadraticUniformBSpline_def result_values_def
          extends_heap_def)
next
  case False
  then have "1 \<le> (2::nat)" "1 < (2::nat)" "2 \<le> length ps" by simp_all
  from h_eval_loop_refines[OF this assms, of "[]" ts]
  obtain ext result' where "h_eval_loop 2 1 ps ts [] h = (result', h @ ext)"
    "valid_refs (h @ ext) result'"
    "values_of (h @ ext) result' = map (\<lambda>t. reduce_gen 2 t (values_of h ps) ! 1) ts"
    by auto
  with False show ?thesis
    by (simp add: h_quadraticUniformBSpline_def quadraticUniformBSpline_def result_values_def
          extends_heap_def quadratic_reduce_gen)
qed

section \<open>The Catmull-Rom builder on the store\<close>

lemma h_sample_loop_refines:
  assumes "a < length h" "b < length h" "c < length h" "d < length h"
    and "valid_refs h result" and "i \<le> 21"
  shows "\<exists>ext result'. h_sample_loop a b c d i result h = (result', h @ ext) \<and>
           valid_refs (h @ ext) result' \<and>
           values_of (h @ ext) result' =
             sample_loop (h ! a) (h ! b) (h ! c) (h ! d) i (values_of h result)"
  using assms
proof (induction "21 - i" arbitrary: i result h)
  case 0
  then have i: "i = 21" by simp
  have "h_sample_loop a b c d i result h = (result, h @ []) \<and>
        valid_refs (h @ []) result \<and>
        values_of (h @ []) result = sample_loop (h ! a) (h ! b) (h ! c) (h ! d) i (values_of h result)"
    using "0.prems"(5) unfolding i
    by (subst h_sample_loop.simps, subst sample_loop.simps) simp
  then show ?case by blast
next
  case (Suc n)
  then have i: "i \<le> 20" by simp
  define t where "t = real i / 20"
  define v where "v = Vec3 (((vx (h ! a) * t + vx (h ! b)) * t + vx (h ! c)) * t + vx (h ! d))
                           (((vy (h ! a) * t + vy (h ! b)) * t + vy (h ! c)) * t + vy (h ! d))
                           (((vz (h ! a) * t + vz (h ! b)) * t + vz (h ! c)) * t + vz (h ! d))"
  let ?h1 = "h @ [v]"
  have step: "h_sample_loop a b c d i result h
              = h_sample_loop a b c d (Suc i) (result @ [length h]) ?h1"
    using i by (subst h_sample_loop.simps) (simp add: Let_def new_vec3_def v_def t_def)
  have pstep: "sample_loop (h ! a) (h ! b) (h ! c) (h ! d) i (values_of h result)
               = sample_loop (h ! a) (h ! b) (h ! c) (h ! d) (Suc i) (values_of h result @ [v])"
    using i by (subst sample_loop.simps) (simp add: Let_def v_def t_def)
  have n: "n = 21 - Suc i" using Suc.hyps(2) by simp
  have valid: "a < length ?h1" "b < length ?h1" "c < length ?h1" "d < length ?h1"
    "valid_refs ?h1 (result @ [length h])" "Suc i \<le> 21"
    using Suc.prems i by (simp_all add: valid_refs_append)
  from Suc.hyps(1)[OF n valid]
  obtain ext result' where IH:
    "h_sample_loop a b c d (Suc i) (result @ [length h]) ?h1 = (result', ?h1 @ ext)"
    "valid_refs (?h1 @ ext) result'"
    "values_of (?h1 @ ext) result' =
       sample_loop (?h1 ! a) (?h1 ! b) (?h1 ! c) (?h1 ! d) (Suc i) (values_of ?h1 (result @ [length h]))"
    by blast
  have e: "?h1 ! a = h ! a" "?h1 ! b = h ! b" "?h1 ! c = h ! c" "?h1 ! d = h ! d"
    using Suc.prems by (simp_all add: nth_append)
  have e2: "values_of ?h1 result = values_of h result"
    using Suc.prems(5) by (rule values_of_append)
  have "h_sample_loop a b c d i result h = (result', h @ ([v] @ ext))"
    unfolding step using IH(1) by simp
  moreover have "valid_refs (h @ ([v] @ ext)) result'" using IH(2) by simp
  moreover have "values_of (h @ ([v] @ ext)) result' =
             sample_loop (h ! a) (h ! b) (h ! c) (h ! d) i (values_of h result)"
    unfolding pstep using IH(3) by (simp add: e e2)
  ultimately show ?case by blast
qed

lemma h_segment_coefficients_refines:
  assumes "valid_refs h ps" and "k + 3 < length ps"
  shows "\<exists>a b c d ext. h_segment_coefficients ps alpha tension k h = ((a, b, c, d), h @ ext) \<and>
           a < length (h @ ext) \<and> b < length (h @ ext) \<and> c < length (h @ ext) \<and>
           d < length (h @ ext) \<and>
           segment_coefficients (values_of h ps) alpha tension k
             = ((h @ ext) ! a, (h @ ext) ! b, (h @ ext) ! c, (h @ ext) ! d)"
proof -
  define q0 q1 q2 q3 where q: "q0 = ps ! k" "q1 = ps ! (k + 1)" "q2 = ps ! (k + 2)" "q3 = ps ! (k + 3)"
  have p: "q0 < length h" "q1 < length h" "q2 < length h" "q3 < length h"
    using assms by (simp_all add: valid_refs_nth q)
  have v: "values_of h ps ! k = h ! q0" "values_of h ps ! (k + 1) = h ! q1"
    "values_of h ps ! (k + 2) = h ! q2" "values_of h ps ! (k + 3) = h ! q3"
    using assms(2) by (simp_all add: values_of_nth q)
  obtain A B C D where pure: "segment_coefficients (values_of h ps) alpha tension k = (A, B, C, D)"
    by (metis prod.exhaust)
  have "\<exists>m2. h_segment_coefficients ps alpha tension k h
           = ((length h + 2, length h + 3, length h, q1), h @ [C, m2, A, B])"
    using pure p
    unfolding segment_coefficients_def h_segment_coefficients_def Let_def v q[symmetric]
      new_vec3_def h_dist_def
    by (auto simp: nth_append)
  then obtain m2 where heap: "h_segment_coefficients ps alpha tension k h
           = ((length h + 2, length h + 3, length h, q1), h @ [C, m2, A, B])"
    by blast
  have "(h @ [C, m2, A, B]) ! (length h + 2) = A" "(h @ [C, m2, A, B]) ! (length h + 3) = B"
    "(h @ [C, m2, A, B]) ! (length h) = C" "(h @ [C, m2, A, B]) ! q1 = D"
  proof -
    show "(h @ [C, m2, A, B]) ! (length h + 2) = A" by (simp add: nth_append)
    show "(h @ [C, m2, A, B]) ! (length h + 3) = B" by (simp add: nth_append numeral_3_eq_3)
    show "(h @ [C, m2, A, B]) ! (length h) = C" by (simp add: nth_append)
    have "D = h ! q1" using pure unfolding segment_coefficients_def Let_def v by simp
    then show "(h @ [C, m2, A, B]) ! q1 = D" using p by (simp add: nth_append)
  qed
  with heap pure p show ?thesis
    by (intro exI[of _ "length h + 2"] exI[of _ "length h + 3"] exI[of _ "length h"]
          exI[of _ q1] exI[of _ "[C, m2, A, B]"]) simp
qed

lemma h_catmull_loop_refines:
  assumes "valid_refs h ps" and "valid_refs h result"
  shows "\<exists>ext result'. h_catmull_loop ps alpha tension k result h = (result', h @ ext) \<and>
           valid_refs (h @ ext) result' \<and>
           values_of (h @ ext) result' =
             catmull_loop (values_of h ps) alpha tension k (values_of h result)"
  using assms
proof (induction "length ps - 3 - k" arbitrary: k result h)
  case 0
  then have k: "\<not> k < length ps - 3" by simp
  have "h_catmull_loop ps alpha tension k result h = (result, h @ []) \<and>
        valid_refs (h @ []) result \<and>
        values_of (h @ []) result = catmull_loop (values_of h ps) alpha tension k (values_of h result)"
    using k "0.prems"(2)
    by (subst h_catmull_loop.simps, subst catmull_loop.simps) simp
  then show ?case by blast
next
  case (Suc n)
  then have k: "k < length ps - 3" by simp
  then have k3: "k + 3 < length ps" by simp
  from h_segment_coefficients_refines[OF Suc.prems(1) k3, of alpha tension]
  obtain a b c d ext1 where seg:
    "h_segment_coefficients ps alpha tension k h = ((a, b, c, d), h @ ext1)"
    "a < length (h @ ext1)" "b < length (h @ ext1)" "c < length (h @ ext1)" "d < length (h @ ext1)"
    "segment_coefficients (values_of h ps) alpha tension k
       = ((h @ ext1) ! a, (h @ ext1) ! b, (h @ ext1) ! c, (h @ ext1) ! d)"
    by blast
  let ?h1 = "h @ ext1"
  have vr: "valid_refs ?h1 result" using Suc.prems(2) by (rule valid_refs_append)
  from h_sample_loop_refines[OF seg(2-5) vr, of 0]
  obtain ext2 result1 where smp:
    "h_sample_loop a b c d 0 result ?h1 = (result1, ?h1 @ ext2)"
    "valid_refs (?h1 @ ext2) result1"
    "values_of (?h1 @ ext2) result1 =
       sample_loop (?h1 ! a) (?h1 ! b) (?h1 ! c) (?h1 ! d) 0 (values_of ?h1 result)"
    by auto
  let ?h2 = "?h1 @ ext2"
  have vp: "valid_refs ?h2 ps" using Suc.prems(1) by (simp add: valid_refs_append)
  have n: "n = length ps - 3 - Suc k" using Suc.hyps(2) by simp
  from Suc.hyps(1)[OF n vp smp(2)]
  obtain ext3 result' where IH:
    "h_catmull_loop ps alpha tension (Suc k) result1 ?h2 = (result', ?h2 @ ext3)"
    "valid_refs (?h2 @ ext3) result'"
    "values_of (?h2 @ ext3) result' =
       catmull_loop (values_of ?h2 ps) alpha tension (Suc k) (values_of ?h2 result1)"
    by blast
  have e1: "values_of (h @ ext1 @ ext2) ps = values_of h ps"
    using Suc.prems(1) by (rule values_of_append)
  have e2: "values_of ?h1 result = values_of h result"
    using Suc.prems(2) by (rule values_of_append)
  have "h_catmull_loop ps alpha tension k result h = (result', h @ (ext1 @ ext2 @ ext3))"
    using k IH(1) by (subst h_catmull_loop.simps) (simp add: seg(1) smp(1))
  moreover have "valid_refs (h @ (ext1 @ ext2 @ ext3)) result'" using IH(2) by simp
  moreover have "values_of (h @ (ext1 @ ext2 @ ext3)) result' =
             catmull_loop (values_of h ps) alpha tension k (values_of h result)"
    using k IH(3) smp(3) by (subst catmull_loop.simps) (simp add: seg(6) e1 e2)
  ultimately show ?case by blast
qed

lemma h_catmullRomImpl_refines:
  assumes "valid_refs h ps"
  shows "\<exists>ext result'. h_catmullRomImpl ps alpha tension h = (result', h @ ext) \<and>
           valid_refs (h @ ext) result' \<and>
           values_of (h @ ext) result' = catmullRomImpl (values_of h ps) alpha tension"
  using h_catmull_loop_refines[OF assms, of "[]" alpha tension 0]
  by (simp add: h_catmullRomImpl_def catmullRomImpl_def)

lemma h_catmull_branch_refines:
  assumes "valid_refs h ps"
  shows "\<exists>result' h'.
           (if flag then h_catmullRomImpl ps alpha tension h else ([], h)) = (result', h') \<and>
           heap_le h h' \<and> valid_refs h' result' \<and>
           values_of h' result' =
             (if flag then [] @ catmullRomImpl (values_of h ps) alpha tension else [])"
proof (cases flag)
  case True
  from h_catmullRomImpl_refines[OF assms, of alpha tension]
  obtain ext result' where "h_catmullRomImpl ps alpha tension h = (result', h @ ext)"
    "valid_refs (h @ ext) result'"
    "values_of (h @ ext) result' = catmullRomImpl (values_of h ps) alpha tension"
    by blast
  with True show ?thesis by (intro exI[of _ result'] exI[of _ "h @ ext"]) simp
next
  case False
  then show ?thesis by simp
qed

lemma h_cubicCatmullRomSpline_refines:
  assumes "valid_refs h ps"
  shows "catmull_values (h_cubicCatmullRomSpline ps kp h)
           = cubicCatmullRomSpline (values_of h ps) kp \<and>
         catmull_extends_heap h (h_cubicCatmullRomSpline ps kp h)"
proof (cases "length ps < 4")
  case True
  then show ?thesis
    by (simp add: h_cubicCatmullRomSpline_def cubicCatmullRomSpline_def catmull_values_def
          catmull_extends_heap_def)
next
  case False
  from h_catmull_branch_refines[OF assms, of "uniform kp" 0 0]
  obtain u h1 where u:
    "(if uniform kp then h_catmullRomImpl ps 0 0 h else ([], h)) = (u, h1)"
    "heap_le h h1" "valid_refs h1 u"
    "values_of h1 u = (if uniform kp then [] @ catmullRomImpl (values_of h ps) 0 0 else [])"
    by blast
  have v1: "valid_refs h1 ps" using u(2) assms by (rule valid_refs_heap_le)
  have p1: "values_of h1 ps = values_of h ps" using u(2) assms by (rule values_of_heap_le)
  from h_catmull_branch_refines[OF v1, of "chordal kp" 1 0]
  obtain c h2 where c:
    "(if chordal kp then h_catmullRomImpl ps 1 0 h1 else ([], h1)) = (c, h2)"
    "heap_le h1 h2" "valid_refs h2 c"
    "values_of h2 c = (if chordal kp then [] @ catmullRomImpl (values_of h ps) 1 0 else [])"
    unfolding p1 by blast
  have v2: "valid_refs h2 ps" using c(2) v1 by (rule valid_refs_heap_le)
  have p2: "values_of h2 ps = values_of h ps"
    using values_of_heap_le[OF c(2) v1] p1 by simp
  from h_catmull_branch_refines[OF v2, of "centripetal kp" "1 / 2" 0]
  obtain ce h3 where ce:
    "(if centripetal kp then h_catmullRomImpl ps (1 / 2) 0 h2 else ([], h2)) = (ce, h3)"
    "heap_le h2 h3" "valid_refs h3 ce"
    "values_of h3 ce =
       (if centripetal kp then [] @ catmullRomImpl (values_of h ps) (1 / 2) 0 else [])"
    unfolding p2 by blast
  have r: "h_cubicCatmullRomSpline ps kp h = Inr ((u, c, ce), h3)"
    using False unfolding h_cubicCatmullRomSpline_def u(1) prod.case c(1) ce(1) by simp
  have uu: "values_of h3 u = values_of h1 u"
    using values_of_heap_le[OF heap_le_trans[OF c(2) ce(2)] u(3)] .
  have cc: "values_of h3 c = values_of h2 c"
    using values_of_heap_le[OF ce(2) c(3)] .
  have vu: "valid_refs h3 u"
    using valid_refs_heap_le[OF heap_le_trans[OF c(2) ce(2)] u(3)] .
  have vc: "valid_refs h3 c" using valid_refs_heap_le[OF ce(2) c(3)] .
  have le: "heap_le h h3" using heap_le_trans[OF u(2) heap_le_trans[OF c(2) ce(2)]] .
  show ?thesis
    unfolding r catmull_values_def catmull_extends_heap_def cubicCatmullRomSpline_def
    using False vu vc ce(3) le
    by (simp add: uu cc u(4) c(4) ce(4))
qed

section \<open>The adaptive subdivision on the store\<close>

lemma h_lp_loop_refines:
  "h_lp_loop top' i lp h = lp_loop (values_of h top') i lp"
proof (induction top' i lp h rule: h_lp_loop.induct)
  case (1 top' i lp h)
  show ?case
  proof (cases "i < length top' - 1")
    case True
    then have "h_dist (top' ! i) (top' ! (i + 1)) h
               = vec3_dist (values_of h top' ! i) (values_of h top' ! (i + 1))"
      by (simp add: h_dist_def values_of_nth)
    with True "1.IH"[OF True] show ?thesis
      by (subst h_lp_loop.simps, subst lp_loop.simps) simp
  next
    case False
    then show ?thesis by (subst h_lp_loop.simps, subst lp_loop.simps) simp
  qed
qed

lemma beyond_simps [simp]:
  "beyond n h []"
  "beyond n h (r # rs) \<longleftrightarrow> n \<le> r \<and> r < length h \<and> beyond n h rs"
  "beyond n h (rs @ rs') \<longleftrightarrow> beyond n h rs \<and> beyond n h rs'"
  by (auto simp: beyond_def)

lemma beyond_valid: "beyond n h rs \<Longrightarrow> valid_refs h rs"
  by (auto simp: beyond_def valid_refs_def list_all_iff)

lemma beyond_weaken:
  "beyond n h rs \<Longrightarrow> m \<le> n \<Longrightarrow> length h \<le> length h' \<Longrightarrow> beyond m h' rs"
  by (auto simp: beyond_def list_all_iff)

lemma values_of_beyond:
  assumes "beyond (length h0 + length vals) (h0 @ vals @ junk) rs"
    and "length vals' = length vals"
  shows "values_of (h0 @ vals' @ junk @ new) rs = values_of (h0 @ vals @ junk) rs"
  using assms by (auto simp: beyond_def values_of_def list_all_iff nth_append)

lemma bisect_loop_step:
  assumes "length vals > 1"
  shows "bisect_loop vals P1 P2 =
         bisect_loop (de_casteljau_round (1 / 2) vals)
           (P1 @ [de_casteljau_round (1 / 2) vals ! 0])
           (P2 @ [de_casteljau_round (1 / 2) vals ! (length vals - 2)])"
proof -
  have "length (de_casteljau_round (1 / 2) vals) - 1 = length vals - 2" by simp
  then show ?thesis
    using assms
    by (subst bisect_loop.simps) (simp only: lerp_pass_round Let_def vec3_clone_id if_True)
qed

lemma h_bisect_loop_refines:
  assumes "beyond (length h0 + length vals) (h0 @ vals @ junk) p1s"
    and "beyond (length h0 + length vals) (h0 @ vals @ junk) p2s"
  shows "\<exists>p1s' p2s' vals' junk'.
           h_bisect_loop [length h0..<length h0 + length vals] p1s p2s (h0 @ vals @ junk)
             = (p1s', p2s', h0 @ vals' @ junk @ junk') \<and>
           length vals' = length vals \<and>
           valid_refs (h0 @ vals' @ junk @ junk') p1s' \<and>
           valid_refs (h0 @ vals' @ junk @ junk') p2s' \<and>
           (values_of (h0 @ vals' @ junk @ junk') p1s', values_of (h0 @ vals' @ junk @ junk') p2s')
             = bisect_loop vals (values_of (h0 @ vals @ junk) p1s) (values_of (h0 @ vals @ junk) p2s)"
  using assms
proof (induction "length vals" arbitrary: vals junk p1s p2s)
  case 0
  then have v: "vals = []" by simp
  have "h_bisect_loop [length h0..<length h0 + length vals] p1s p2s (h0 @ vals @ junk)
             = (p1s, p2s, h0 @ vals @ junk @ [])"
    unfolding v by (subst h_bisect_loop.simps) simp
  moreover have "bisect_loop vals (values_of (h0 @ vals @ junk) p1s) (values_of (h0 @ vals @ junk) p2s)
        = (values_of (h0 @ vals @ junk @ []) p1s, values_of (h0 @ vals @ junk @ []) p2s)"
    unfolding v by (subst bisect_loop.simps) simp
  moreover have "valid_refs (h0 @ vals @ junk @ []) p1s" "valid_refs (h0 @ vals @ junk @ []) p2s"
    using "0.prems" by (simp_all add: beyond_valid)
  ultimately show ?case by (intro exI[of _ p1s] exI[of _ p2s] exI[of _ vals] exI[of _ "[]"]) simp
next
  case (Suc n)
  let ?H = "h0 @ vals @ junk"
  let ?points = "[length h0..<length h0 + length vals]"
  show ?case
  proof (cases "length vals > 1")
    case False
    have "h_bisect_loop ?points p1s p2s ?H = (p1s, p2s, h0 @ vals @ junk @ [])"
      using False by (subst h_bisect_loop.simps) simp
    moreover have "bisect_loop vals (values_of ?H p1s) (values_of ?H p2s)
        = (values_of (h0 @ vals @ junk @ []) p1s, values_of (h0 @ vals @ junk @ []) p2s)"
      using False by (subst bisect_loop.simps) simp
    moreover have "valid_refs (h0 @ vals @ junk @ []) p1s" "valid_refs (h0 @ vals @ junk @ []) p2s"
      using Suc.prems by (simp_all add: beyond_valid)
    ultimately show ?thesis
      by (intro exI[of _ p1s] exI[of _ p2s] exI[of _ vals] exI[of _ "[]"]) simp
  next
    case True
    let ?L = "lerp_loop (1 / 2) (length vals - 1) 0 vals"
    let ?V = "de_casteljau_round (1 / 2) vals"
    have lenL: "length ?L = length vals" by simp
    have ne: "?L \<noteq> []" using True by (auto simp flip: length_0_conv)
    have VL: "butlast ?L = ?V" by (rule lerp_pass_round)
    have split: "?L = ?V @ [last ?L]" using ne VL by (metis append_butlast_last_id)
    have lenV: "length ?V = length vals - 1" by simp
    have h1: "h_lerp_loop (1 / 2) (length vals - 1) 0 ?points ?H = h0 @ ?L @ junk"
      by (intro h_lerp_loop_region) simp
    let ?h1 = "h0 @ ?L @ junk"
    let ?points' = "[length h0..<length h0 + length ?V]"
    have pts: "butlast ?points = ?points'" by (simp add: butlast_upt_region)
    let ?x1 = "?V ! 0"
    let ?x2 = "?V ! (length vals - 2)"
    let ?r1 = "length ?h1"
    let ?r2 = "Suc (length ?h1)"
    have c1: "h_clone (?points' ! 0) ?h1 = (?r1, ?h1 @ [?x1])"
    proof -
      have "?points' ! 0 = length h0" using True by simp
      moreover have "?h1 ! length h0 = ?L ! 0" using True by (auto simp: nth_append)
      moreover have "?L ! 0 = ?V ! 0" using True by (subst split) (simp add: nth_append)
      ultimately show ?thesis by (simp add: h_clone_def new_vec3_def)
    qed
    have c2: "h_clone (?points' ! (length ?points' - 1)) (?h1 @ [?x1]) = (?r2, ?h1 @ [?x1, ?x2])"
    proof -
      have "?points' ! (length ?points' - 1) = length h0 + (length vals - 2)"
        using True by (simp add: numeral_2_eq_2)
      moreover have "(?h1 @ [?x1]) ! (length h0 + (length vals - 2)) = ?L ! (length vals - 2)"
        using True by (auto simp: nth_append)
      moreover have "?L ! (length vals - 2) = ?V ! (length vals - 2)"
      proof -
        have "length vals - 2 < length ?V" using True by simp
        then show ?thesis by (subst split) (simp only: nth_append if_True)
      qed
      ultimately show ?thesis by (simp add: h_clone_def new_vec3_def)
    qed
    let ?junk2 = "last ?L # junk @ [?x1, ?x2]"
    have h3: "?h1 @ [?x1, ?x2] = h0 @ ?V @ ?junk2" by (subst split) simp
    have step: "h_bisect_loop ?points p1s p2s ?H
                = h_bisect_loop ?points' (p1s @ [?r1]) (p2s @ [?r2]) (h0 @ ?V @ ?junk2)"
    proof -
      have lp: "length ?points = length vals" by simp
      show ?thesis
        by (subst h_bisect_loop.simps)
           (simp only: lp True h1 Let_def pts c1 c2 prod.case h3 if_True)
    qed
    have le1: "length h0 + length ?V \<le> length h0 + length vals" by simp
    have le2: "length ?H \<le> length (h0 @ ?V @ ?junk2)" using True by simp
    have r1: "length h0 + length ?V \<le> ?r1" "?r1 < length (h0 @ ?V @ ?junk2)"
      using True by auto
    have r2: "length h0 + length ?V \<le> ?r2" "?r2 < length (h0 @ ?V @ ?junk2)"
      using True by auto
    have b1: "beyond (length h0 + length ?V) (h0 @ ?V @ ?junk2) (p1s @ [?r1])"
      using beyond_weaken[OF Suc.prems(1) le1 le2] r1 by (simp only: beyond_simps simp_thms)
    have b2: "beyond (length h0 + length ?V) (h0 @ ?V @ ?junk2) (p2s @ [?r2])"
      using beyond_weaken[OF Suc.prems(2) le1 le2] r2 by (simp only: beyond_simps simp_thms)
    have n: "n = length ?V" using Suc.hyps(2) by simp
    from Suc.hyps(1)[OF n b1 b2]
    obtain p1s' p2s' vals' junk' where IH:
      "h_bisect_loop ?points' (p1s @ [?r1]) (p2s @ [?r2]) (h0 @ ?V @ ?junk2)
         = (p1s', p2s', h0 @ vals' @ ?junk2 @ junk')"
      "length vals' = length ?V"
      "valid_refs (h0 @ vals' @ ?junk2 @ junk') p1s'"
      "valid_refs (h0 @ vals' @ ?junk2 @ junk') p2s'"
      "(values_of (h0 @ vals' @ ?junk2 @ junk') p1s', values_of (h0 @ vals' @ ?junk2 @ junk') p2s')
         = bisect_loop ?V (values_of (h0 @ ?V @ ?junk2) (p1s @ [?r1]))
             (values_of (h0 @ ?V @ ?junk2) (p2s @ [?r2]))"
      by blast
    have h3': "h0 @ ?L @ junk @ [?x1, ?x2] = h0 @ ?V @ ?junk2"
      using h3 by simp
    have keep1: "values_of (h0 @ ?V @ ?junk2) p1s = values_of ?H p1s"
      unfolding h3'[symmetric] by (rule values_of_beyond[OF Suc.prems(1) lenL])
    have keep2: "values_of (h0 @ ?V @ ?junk2) p2s = values_of ?H p2s"
      unfolding h3'[symmetric] by (rule values_of_beyond[OF Suc.prems(2) lenL])
    have n1: "(h0 @ ?V @ ?junk2) ! ?r1 = ?x1"
      unfolding h3[symmetric] by (simp add: nth_append)
    have n2: "(h0 @ ?V @ ?junk2) ! ?r2 = ?x2"
      unfolding h3[symmetric] by (simp add: nth_append)
    have pure: "bisect_loop vals (values_of ?H p1s) (values_of ?H p2s)
          = bisect_loop ?V (values_of (h0 @ ?V @ ?junk2) (p1s @ [?r1]))
             (values_of (h0 @ ?V @ ?junk2) (p2s @ [?r2]))"
      unfolding bisect_loop_step[OF True] values_of_simps keep1 keep2 n1 n2 by simp
    have len': "length (vals' @ [last ?L]) = length vals" using IH(2) True by simp
    define HF where "HF = h0 @ vals' @ ?junk2 @ junk'"
    have shape: "h0 @ (vals' @ [last ?L]) @ junk @ ([?x1, ?x2] @ junk') = HF"
      by (simp add: HF_def)
    have res: "h_bisect_loop ?points p1s p2s ?H = (p1s', p2s', HF)"
      unfolding step HF_def by (rule IH(1))
    have vs: "(values_of HF p1s', values_of HF p2s')
              = bisect_loop vals (values_of ?H p1s) (values_of ?H p2s)"
      unfolding pure HF_def by (rule IH(5))
    have v1: "valid_refs HF p1s'" unfolding HF_def by (rule IH(3))
    have v2: "valid_refs HF p2s'" unfolding HF_def by (rule IH(4))
    have "h_bisect_loop ?points p1s p2s ?H
             = (p1s', p2s', h0 @ (vals' @ [last ?L]) @ junk @ ([?x1, ?x2] @ junk')) \<and>
           length (vals' @ [last ?L]) = length vals \<and>
           valid_refs (h0 @ (vals' @ [last ?L]) @ junk @ ([?x1, ?x2] @ junk')) p1s' \<and>
           valid_refs (h0 @ (vals' @ [last ?L]) @ junk @ ([?x1, ?x2] @ junk')) p2s' \<and>
           (values_of (h0 @ (vals' @ [last ?L]) @ junk @ ([?x1, ?x2] @ junk')) p1s',
            values_of (h0 @ (vals' @ [last ?L]) @ junk @ ([?x1, ?x2] @ junk')) p2s')
             = bisect_loop vals (values_of ?H p1s) (values_of ?H p2s)"
      unfolding shape using res len' v1 v2 vs by (intro conjI)
    then show ?thesis by blast
  qed
qed

lemma values_of_rev [simp]: "values_of h (rev rs) = rev (values_of h rs)"
  by (simp add: values_of_def rev_map)

lemma valid_refs_rev [simp]: "valid_refs h (rev rs) = valid_refs h rs"
  by (simp add: valid_refs_def)

lemma h_error_estimate:
  assumes "3 \<le> length top'"
  shows "(real (length top' - 1) - 1) / (real (length top' - 1) + 1)
           * (h_lp_loop top' 0 0 h - h_dist (top' ! 0) (top' ! (length top' - 1)) h)
         = gravesen_error (values_of h top')"
proof -
  have pos: "0 < length top'" "length top' - 1 < length top'" using assms by auto
  have "h_dist (top' ! 0) (top' ! (length top' - 1)) h = chord_length (values_of h top')"
    using values_of_nth[OF pos(1), of h] values_of_nth[OF pos(2), of h]
    by (simp add: h_dist_def chord_length_def)
  then show ?thesis
    by (simp add: gravesen_error_def Let_def h_lp_loop_refines lp_loop_polygon_length)
qed

lemma h_subdivision_body_flat:
  assumes "3 \<le> length top'" and "\<not> gravesen_error (values_of h top') > 1 / 100000"
  shows "h_subdivision_body top' rest out h = Inr (rest, out @ [top' ! (length top' - 1)], h)"
proof -
  have c: "\<not> length top' < 2" "length top' \<noteq> 2" using assms(1) by auto
  show ?thesis
    unfolding h_subdivision_body_def Let_def h_error_estimate[OF assms(1)]
    using assms(2) by (simp only: c if_False)
qed

lemma h_subdivision_body_bisect:
  assumes "3 \<le> length top'" and "valid_refs h top'"
    and "gravesen_error (values_of h top') > 1 / 100000"
  shows "\<exists>L R h'. (\<forall>rest out. h_subdivision_body top' rest out h = Inr (L # R # rest, out, h')) \<and>
           heap_le h h' \<and> valid_refs h' L \<and> valid_refs h' R \<and>
           values_of h' L = left_half (values_of h top') \<and>
           values_of h' R = right_half (values_of h top')"
proof -
  let ?vals = "values_of h top'"
  let ?n = "length h"
  let ?len = "length top'"
  let ?x0 = "?vals ! 0"
  let ?xl = "?vals ! (?len - 1)"
  have ne: "?vals \<noteq> []" using assms(1) by (auto simp flip: length_0_conv)
  have c: "\<not> ?len < 2" "?len \<noteq> 2" using assms(1) by auto
  have pos: "0 < ?len" "?len - 1 < ?len" using assms(1) by auto
  have t0: "top' ! 0 < ?n" and tl: "top' ! (?len - 1) < ?n"
    using valid_refs_nth[OF assms(2) pos(1)] valid_refs_nth[OF assms(2) pos(2)] by simp_all
  have vx0: "?x0 = h ! (top' ! 0)" and vxl: "?xl = h ! (top' ! (?len - 1))"
    using values_of_nth[OF pos(1), of h] values_of_nth[OF pos(2), of h] by simp_all
  have clone: "h_map_clone top' h = ([?n..<?n + length ?vals], h @ ?vals)"
    using assms(2) by (simp add: h_map_clone_eq)
  have c1: "h_clone (top' ! 0) (h @ ?vals) = (?n + ?len, h @ ?vals @ [?x0])"
    using t0 by (simp add: h_clone_def new_vec3_def nth_append vx0)
  have c2: "h_clone (top' ! (?len - 1)) (h @ ?vals @ [?x0]) = (?n + ?len + 1, h @ ?vals @ [?x0, ?xl])"
    using tl vxl by (simp add: h_clone_def new_vec3_def nth_append)
  have b1: "beyond (?n + length ?vals) (h @ ?vals @ [?x0, ?xl]) [?n + ?len]" by simp
  have b2: "beyond (?n + length ?vals) (h @ ?vals @ [?x0, ?xl]) [?n + ?len + 1]" by simp
  from h_bisect_loop_refines[OF b1 b2]
  obtain p1s p2s vals' junk' where bis:
    "h_bisect_loop [?n..<?n + length ?vals] [?n + ?len] [?n + ?len + 1] (h @ ?vals @ [?x0, ?xl])
       = (p1s, p2s, h @ vals' @ [?x0, ?xl] @ junk')"
    "valid_refs (h @ vals' @ [?x0, ?xl] @ junk') p1s"
    "valid_refs (h @ vals' @ [?x0, ?xl] @ junk') p2s"
    "(values_of (h @ vals' @ [?x0, ?xl] @ junk') p1s, values_of (h @ vals' @ [?x0, ?xl] @ junk') p2s)
       = bisect_loop ?vals (values_of (h @ ?vals @ [?x0, ?xl]) [?n + ?len])
           (values_of (h @ ?vals @ [?x0, ?xl]) [?n + ?len + 1])"
    by blast
  define h' where "h' = h @ vals' @ [?x0, ?xl] @ junk'"
  have v1: "values_of (h @ ?vals @ [?x0, ?xl]) [?n + ?len] = [?x0]"
    by (simp add: nth_append)
  have v2: "values_of (h @ ?vals @ [?x0, ?xl]) [?n + ?len + 1] = [?xl]"
    by (simp add: nth_append)
  have halves: "bisect_loop ?vals [?x0] [?xl] = (left_half ?vals, rev (right_half ?vals))"
    using bisect_halves[OF ne] by simp
  have vals: "values_of h' p1s = left_half ?vals" "values_of h' p2s = rev (right_half ?vals)"
    using bis(4) unfolding v1 v2 halves h'_def by simp_all
  have body: "h_subdivision_body top' rest out h = Inr (p1s # rev p2s # rest, out, h')" for rest out
    unfolding h_subdivision_body_def Let_def h_error_estimate[OF assms(1)] h'_def
    using assms(3) by (simp only: c if_False if_True clone prod.case c1 c2 bis(1))
  have "heap_le h h'" by (simp add: h'_def)
  moreover have "valid_refs h' p1s" "valid_refs h' (rev p2s)"
    using bis(2,3) by (simp_all add: h'_def)
  moreover have "values_of h' (rev p2s) = right_half ?vals" by (simp add: vals)
  ultimately show ?thesis using body vals(1) by blast
qed

lemma right_half_last_nth:
  "ps \<noteq> [] \<Longrightarrow> right_half ps ! (length ps - 1) = ps ! (length ps - 1)"
  by (rule right_half_last)

lemma h_subdivision_loop_emits:
  assumes "3 \<le> length top'" and "valid_refs h top'" and "second_diff_le (values_of h top') c"
    and "2 * (real (length top' - 1) * (real (length top' - 1) * c)) \<le> 4 ^ k * (1 / 100000)"
  shows "\<exists>o' h'. heap_le h h' \<and> valid_refs h' o' \<and>
           (\<forall>rest out. h_subdivision_loop (top' # rest) out h
                        = h_subdivision_loop rest (out @ o') h') \<and>
           (\<forall>prest pout. subdivision_loop (values_of h top' # prest) pout
                        = subdivision_loop prest (pout @ values_of h' o'))"
  using assms
proof (induction k arbitrary: top' h c)
  case 0
  let ?vals = "values_of h top'"
  have len: "3 \<le> length ?vals" using "0.prems"(1) by simp
  have "gravesen_error ?vals \<le> 1 / 100000"
    using gravesen_error_bound[OF "0.prems"(3) len] "0.prems"(4) by simp
  then have flat: "\<not> gravesen_error ?vals > 1 / 100000" by simp
  let ?o = "[top' ! (length top' - 1)]"
  have pos: "length top' - 1 < length top'" using "0.prems"(1) by auto
  have "values_of h ?o = [?vals ! (length ?vals - 1)]"
    using values_of_nth[OF pos, of h] by simp
  then have "heap_le h h \<and> valid_refs h ?o \<and>
           (\<forall>rest out. h_subdivision_loop (top' # rest) out h
                        = h_subdivision_loop rest (out @ ?o) h) \<and>
           (\<forall>prest pout. subdivision_loop (?vals # prest) pout
                        = subdivision_loop prest (pout @ values_of h ?o))"
    using "0.prems"(1,2) flat valid_refs_nth[OF "0.prems"(2) pos]
    by (subst h_subdivision_loop.simps)
       (simp add: h_subdivision_body_flat subdivision_loop_unfold[OF len])
  then show ?case by blast
next
  case (Suc k)
  let ?vals = "values_of h top'"
  have len: "3 \<le> length ?vals" using Suc.prems(1) by simp
  show ?case
  proof (cases "gravesen_error ?vals > 1 / 100000")
    case False
    let ?o = "[top' ! (length top' - 1)]"
    have pos: "length top' - 1 < length top'" using Suc.prems(1) by auto
    have "values_of h ?o = [?vals ! (length ?vals - 1)]"
      using values_of_nth[OF pos, of h] by simp
    then have "heap_le h h \<and> valid_refs h ?o \<and>
           (\<forall>rest out. h_subdivision_loop (top' # rest) out h
                        = h_subdivision_loop rest (out @ ?o) h) \<and>
           (\<forall>prest pout. subdivision_loop (?vals # prest) pout
                        = subdivision_loop prest (pout @ values_of h ?o))"
      using Suc.prems(1,2) False valid_refs_nth[OF Suc.prems(2) pos]
      by (subst h_subdivision_loop.simps)
         (simp add: h_subdivision_body_flat subdivision_loop_unfold[OF len])
    then show ?thesis by blast
  next
    case True
    let ?n = "real (length top' - 1)"
    have "2 * (?n * (?n * (c / 4))) = (2 * (?n * (?n * c))) / 4" by simp
    also have "\<dots> \<le> (4 ^ Suc k * (1 / 100000)) / 4"
      using Suc.prems(4) by (intro divide_right_mono) simp_all
    finally have bound: "2 * (?n * (?n * (c / 4))) \<le> 4 ^ k * (1 / 100000)" by simp
    from h_subdivision_body_bisect[OF Suc.prems(1,2) True]
    obtain L R h1 where body:
      "\<And>rest out. h_subdivision_body top' rest out h = Inr (L # R # rest, out, h1)"
      "heap_le h h1" "valid_refs h1 L" "valid_refs h1 R"
      "values_of h1 L = left_half ?vals" "values_of h1 R = right_half ?vals"
      by blast
    have lenL: "3 \<le> length L" "length L = length top'"
      using body(5) len by (metis length_left_half values_of_simps(4))+
    have lenR: "3 \<le> length R" "length R = length top'"
      using body(6) len by (metis length_right_half values_of_simps(4))+
    have sdL: "second_diff_le (values_of h1 L) (c / 4)"
      unfolding body(5) by (rule second_diff_le_left_half[OF Suc.prems(3)])
    have bL: "2 * (real (length L - 1) * (real (length L - 1) * (c / 4))) \<le> 4 ^ k * (1 / 100000)"
      unfolding lenL(2) by (rule bound)
    from Suc.IH[OF lenL(1) body(3) sdL bL]
    obtain o1 h2 where l:
      "heap_le h1 h2" "valid_refs h2 o1"
      "\<And>rest out. h_subdivision_loop (L # rest) out h1 = h_subdivision_loop rest (out @ o1) h2"
      "\<And>prest pout. subdivision_loop (values_of h1 L # prest) pout
                        = subdivision_loop prest (pout @ values_of h2 o1)"
      by blast
    have vR: "valid_refs h2 R" using l(1) body(4) by (rule valid_refs_heap_le)
    have eR: "values_of h2 R = right_half ?vals"
      using values_of_heap_le[OF l(1) body(4)] body(6) by simp
    have sdR: "second_diff_le (values_of h2 R) (c / 4)"
      unfolding eR by (rule second_diff_le_right_half[OF Suc.prems(3)])
    have bR: "2 * (real (length R - 1) * (real (length R - 1) * (c / 4))) \<le> 4 ^ k * (1 / 100000)"
      unfolding lenR(2) by (rule bound)
    from Suc.IH[OF lenR(1) vR sdR bR]
    obtain o2 h3 where r:
      "heap_le h2 h3" "valid_refs h3 o2"
      "\<And>rest out. h_subdivision_loop (R # rest) out h2 = h_subdivision_loop rest (out @ o2) h3"
      "\<And>prest pout. subdivision_loop (values_of h2 R # prest) pout
                        = subdivision_loop prest (pout @ values_of h3 o2)"
      by blast
    have le: "heap_le h h3" using heap_le_trans[OF body(2) heap_le_trans[OF l(1) r(1)]] .
    have vo: "valid_refs h3 (o1 @ o2)"
      using valid_refs_heap_le[OF r(1) l(2)] r(2) by simp
    have e1: "values_of h3 o1 = values_of h2 o1" using r(1) l(2) by (rule values_of_heap_le)
    have hl: "h_subdivision_loop (top' # rest) out h = h_subdivision_loop rest (out @ (o1 @ o2)) h3"
      for rest out
      by (subst h_subdivision_loop.simps) (simp add: body(1) l(3) r(3))
    have pl: "subdivision_loop (?vals # prest) pout
              = subdivision_loop prest (pout @ values_of h3 (o1 @ o2))" for prest pout
      using True l(4)[unfolded body(5)] r(4)[unfolded eR]
      by (simp add: subdivision_loop_unfold[OF len] e1)
    from le vo hl pl show ?thesis by blast
  qed
qed

lemma h_adaptiveSubdivision_refines:
  assumes "valid_refs h ps"
  shows "\<exists>x. h_adaptiveSubdivision ps h = Some x \<and>
           adaptiveSubdivision (values_of h ps) = Some (result_values x) \<and>
           extends_heap h x"
proof -
  let ?vals = "values_of h ps"
  consider "length ps < 2" | "length ps = 2" | "3 \<le> length ps" by linarith
  then show ?thesis
  proof cases
    case 1
    then show ?thesis
      by (simp add: h_adaptiveSubdivision_def adaptiveSubdivision_def result_values_def
            extends_heap_def)
  next
    case 2
    have "h_map_clone ps h = ([length h..<length h + length ?vals], h @ ?vals @ [])"
      using assms by (simp add: h_map_clone_eq)
    moreover have "values_of (h @ ?vals @ []) [length h..<length h + length ?vals] = ?vals"
      by (rule values_of_region)
    moreover have "valid_refs (h @ ?vals @ []) [length h..<length h + length ?vals]"
      by (intro valid_refs_upt) simp
    ultimately show ?thesis
      using 2
      by (simp add: h_adaptiveSubdivision_def adaptiveSubdivision_def result_values_def
            extends_heap_def del: upt_Suc)
  next
    case 3
    have pos: "0 < length ps" using 3 by auto
    have p0: "ps ! 0 < length h" using valid_refs_nth[OF assms pos] .
    have v0: "?vals ! 0 = h ! (ps ! 0)" using values_of_nth[OF pos, of h] .
    let ?h1 = "h @ [?vals ! 0]"
    have clone: "h_clone (ps ! 0) h = (length h, ?h1)"
      by (simp add: h_clone_def new_vec3_def v0)
    have vp: "valid_refs ?h1 ps" using assms by (rule valid_refs_append)
    have ep: "values_of ?h1 ps = ?vals" using assms by (rule values_of_append)
    obtain c where c: "second_diff_le ?vals c" using second_diff_le_exists by blast
    obtain k where k: "2 * (real (length ps - 1) * (real (length ps - 1) * c)) \<le> 4 ^ k * (1 / 100000)"
      using power4_bound_exists by blast
    have c1: "second_diff_le (values_of ?h1 ps) c" using c by (simp only: ep)
    from h_subdivision_loop_emits[OF 3 vp c1 k]
    obtain o' h' where em:
      "heap_le ?h1 h'" "valid_refs h' o'"
      "\<And>rest out. h_subdivision_loop (ps # rest) out ?h1 = h_subdivision_loop rest (out @ o') h'"
      "\<And>prest pout. subdivision_loop (values_of ?h1 ps # prest) pout
                        = subdivision_loop prest (pout @ values_of h' o')"
      by blast
    have run: "h_adaptiveSubdivision ps h = Some (Inr ([length h] @ o', h'))"
      using 3 unfolding h_adaptiveSubdivision_def clone
      by (simp add: em(3)) (subst h_subdivision_loop.simps, simp)
    have r0: "valid_refs ?h1 [length h]" by simp
    have e0: "values_of h' [length h] = [?vals ! 0]"
      using values_of_heap_le[OF em(1) r0] by simp
    have pure: "adaptiveSubdivision ?vals = Some (Inr ([?vals ! 0] @ values_of h' o'))"
      using 3 em(4)[unfolded ep, of "[]" "[?vals ! 0]"]
      by (simp add: adaptiveSubdivision_def) (subst subdivision_loop.simps, simp)
    have le: "heap_le h h'" using heap_le_trans[OF heap_le_append em(1)] .
    have vr: "valid_refs h' ([length h] @ o')"
      using valid_refs_heap_le[OF em(1) r0] em(2) by simp
    show ?thesis
      unfolding run pure using le vr e0
      by (simp add: result_values_def extends_heap_def)
  qed
qed

section \<open>Determinism\<close>

lemma second_run_same:
  assumes "\<And>g. heap_le h g \<Longrightarrow> \<exists>x. run g = Some x \<and> val x = pure \<and> ext g x"
    and "\<And>g r g1. ext g (Inr (r, g1)) \<Longrightarrow> heap_le g g1"
  shows "map_option val (second_run run h) = map_option val (run h)"
proof -
  from assms(1)[OF heap_le_refl] obtain x where x: "run h = Some x" "val x = pure" "ext h x"
    by blast
  show ?thesis
  proof (cases x)
    case (Inl e)
    then show ?thesis using x by (simp add: second_run_def)
  next
    case (Inr p)
    obtain r h1 where p: "p = (r, h1)" by (cases p)
    have "heap_le h h1" using x(3) assms(2) unfolding Inr p by blast
    from assms(1)[OF this] obtain y where "run h1 = Some y" "val y = pure" by blast
    then show ?thesis using x by (simp add: second_run_def Inr p)
  qed
qed

lemma extends_heap_le: "extends_heap g (Inr (r, g1)) \<Longrightarrow> heap_le g g1"
  by (simp add: extends_heap_def)

lemma catmull_extends_heap_le: "catmull_extends_heap g (Inr (r, g1)) \<Longrightarrow> heap_le g g1"
  by (cases r) (auto simp: catmull_extends_heap_def)

text \<open>
  Claim C9. Every evaluator is deterministic and keeps no state. Run in any two stores
  on control points with the same values (and the same parameters or selector), an
  evaluator has the same outcome: the same exception, or returned points with the same
  values. A call leaves every object that was in the store as it was, the control points
  among them, and only adds objects. So a second invocation, in the store that the first
  one left, has the outcome of the first. \<^verbatim>\<open>adaptiveSubdivision\<close> returns in both.
\<close>

theorem evaluators_deterministic:
  assumes "valid_refs h ps" and "valid_refs h' ps'" and "values_of h ps = values_of h' ps'"
  shows
   "result_values (h_evaluateBezierCurve ps ts h)
      = result_values (h_evaluateBezierCurve ps' ts h') \<and>
    result_values (h_uniformBSpline ps ts h)
      = result_values (h_uniformBSpline ps' ts h') \<and>
    result_values (h_quadraticUniformBSpline ps ts h)
      = result_values (h_quadraticUniformBSpline ps' ts h') \<and>
    h_adaptiveSubdivision ps h \<noteq> None \<and>
    map_option result_values (h_adaptiveSubdivision ps h)
      = map_option result_values (h_adaptiveSubdivision ps' h') \<and>
    catmull_values (h_cubicCatmullRomSpline ps kp h)
      = catmull_values (h_cubicCatmullRomSpline ps' kp h') \<and>
    extends_heap h (h_evaluateBezierCurve ps ts h) \<and>
    extends_heap h (h_uniformBSpline ps ts h) \<and>
    extends_heap h (h_quadraticUniformBSpline ps ts h) \<and>
    (\<forall>x. h_adaptiveSubdivision ps h = Some x \<longrightarrow> extends_heap h x) \<and>
    catmull_extends_heap h (h_cubicCatmullRomSpline ps kp h) \<and>
    map_option result_values (second_run (\<lambda>g. Some (h_evaluateBezierCurve ps ts g)) h)
      = Some (result_values (h_evaluateBezierCurve ps ts h)) \<and>
    map_option result_values (second_run (\<lambda>g. Some (h_uniformBSpline ps ts g)) h)
      = Some (result_values (h_uniformBSpline ps ts h)) \<and>
    map_option result_values (second_run (\<lambda>g. Some (h_quadraticUniformBSpline ps ts g)) h)
      = Some (result_values (h_quadraticUniformBSpline ps ts h)) \<and>
    map_option result_values (second_run (h_adaptiveSubdivision ps) h)
      = map_option result_values (h_adaptiveSubdivision ps h) \<and>
    map_option catmull_values (second_run (\<lambda>g. Some (h_cubicCatmullRomSpline ps kp g)) h)
      = Some (catmull_values (h_cubicCatmullRomSpline ps kp h))"
proof -
  have later: "valid_refs g ps \<and> values_of g ps = values_of h ps" if "heap_le h g" for g
    using that assms(1) by (simp add: valid_refs_heap_le values_of_heap_le)
  have b: "result_values (h_evaluateBezierCurve ps ts h)
      = result_values (h_evaluateBezierCurve ps' ts h')"
    using h_evaluateBezierCurve_refines[OF assms(1)] h_evaluateBezierCurve_refines[OF assms(2)]
      assms(3) by simp
  have u: "result_values (h_uniformBSpline ps ts h)
      = result_values (h_uniformBSpline ps' ts h')"
    using h_uniformBSpline_refines[OF assms(1)] h_uniformBSpline_refines[OF assms(2)]
      assms(3) by simp
  have q: "result_values (h_quadraticUniformBSpline ps ts h)
      = result_values (h_quadraticUniformBSpline ps' ts h')"
    using h_quadraticUniformBSpline_refines[OF assms(1)]
      h_quadraticUniformBSpline_refines[OF assms(2)] assms(3) by simp
  obtain x where x: "h_adaptiveSubdivision ps h = Some x"
    "adaptiveSubdivision (values_of h ps) = Some (result_values x)" "extends_heap h x"
    using h_adaptiveSubdivision_refines[OF assms(1)] by blast
  obtain x' where x': "h_adaptiveSubdivision ps' h' = Some x'"
    "adaptiveSubdivision (values_of h' ps') = Some (result_values x')"
    using h_adaptiveSubdivision_refines[OF assms(2)] by blast
  have a1: "h_adaptiveSubdivision ps h \<noteq> None" using x by simp
  have a2: "map_option result_values (h_adaptiveSubdivision ps h)
      = map_option result_values (h_adaptiveSubdivision ps' h')"
    using x x' assms(3) by simp
  have a3: "\<forall>y. h_adaptiveSubdivision ps h = Some y \<longrightarrow> extends_heap h y"
    using x by simp
  have c: "catmull_values (h_cubicCatmullRomSpline ps kp h)
      = catmull_values (h_cubicCatmullRomSpline ps' kp h')"
    using h_cubicCatmullRomSpline_refines[OF assms(1)] h_cubicCatmullRomSpline_refines[OF assms(2)]
      assms(3) by simp
  have fb: "extends_heap h (h_evaluateBezierCurve ps ts h)"
    using h_evaluateBezierCurve_refines[OF assms(1)] by simp
  have fu: "extends_heap h (h_uniformBSpline ps ts h)"
    using h_uniformBSpline_refines[OF assms(1)] by simp
  have fq: "extends_heap h (h_quadraticUniformBSpline ps ts h)"
    using h_quadraticUniformBSpline_refines[OF assms(1)] by simp
  have fc: "catmull_extends_heap h (h_cubicCatmullRomSpline ps kp h)"
    using h_cubicCatmullRomSpline_refines[OF assms(1)] by simp
  have sb: "map_option result_values (second_run (\<lambda>g. Some (h_evaluateBezierCurve ps ts g)) h)
      = Some (result_values (h_evaluateBezierCurve ps ts h))"
  proof -
    have "map_option result_values (second_run (\<lambda>g. Some (h_evaluateBezierCurve ps ts g)) h)
          = map_option result_values (Some (h_evaluateBezierCurve ps ts h))"
    proof (rule second_run_same[where pure = "evaluateBezierCurve (values_of h ps) ts"
              and ext = extends_heap])
      fix g assume "heap_le h g"
      from later[OF this] h_evaluateBezierCurve_refines[of g ps ts]
      show "\<exists>x. Some (h_evaluateBezierCurve ps ts g) = Some x \<and>
              result_values x = evaluateBezierCurve (values_of h ps) ts \<and> extends_heap g x"
        by simp
    qed (rule extends_heap_le)
    then show ?thesis by simp
  qed
  have su: "map_option result_values (second_run (\<lambda>g. Some (h_uniformBSpline ps ts g)) h)
      = Some (result_values (h_uniformBSpline ps ts h))"
  proof -
    have "map_option result_values (second_run (\<lambda>g. Some (h_uniformBSpline ps ts g)) h)
          = map_option result_values (Some (h_uniformBSpline ps ts h))"
    proof (rule second_run_same[where pure = "uniformBSpline (values_of h ps) ts"
              and ext = extends_heap])
      fix g assume "heap_le h g"
      from later[OF this] h_uniformBSpline_refines[of g ps ts]
      show "\<exists>x. Some (h_uniformBSpline ps ts g) = Some x \<and>
              result_values x = uniformBSpline (values_of h ps) ts \<and> extends_heap g x"
        by simp
    qed (rule extends_heap_le)
    then show ?thesis by simp
  qed
  have sq: "map_option result_values (second_run (\<lambda>g. Some (h_quadraticUniformBSpline ps ts g)) h)
      = Some (result_values (h_quadraticUniformBSpline ps ts h))"
  proof -
    have "map_option result_values (second_run (\<lambda>g. Some (h_quadraticUniformBSpline ps ts g)) h)
          = map_option result_values (Some (h_quadraticUniformBSpline ps ts h))"
    proof (rule second_run_same[where pure = "quadraticUniformBSpline (values_of h ps) ts"
              and ext = extends_heap])
      fix g assume "heap_le h g"
      from later[OF this] h_quadraticUniformBSpline_refines[of g ps ts]
      show "\<exists>x. Some (h_quadraticUniformBSpline ps ts g) = Some x \<and>
              result_values x = quadraticUniformBSpline (values_of h ps) ts \<and> extends_heap g x"
        by simp
    qed (rule extends_heap_le)
    then show ?thesis by simp
  qed
  have sa: "map_option result_values (second_run (h_adaptiveSubdivision ps) h)
      = map_option result_values (h_adaptiveSubdivision ps h)"
  proof (rule second_run_same[where pure = "the (adaptiveSubdivision (values_of h ps))"
              and ext = extends_heap])
    fix g assume "heap_le h g"
    from later[OF this] h_adaptiveSubdivision_refines[of g ps]
    show "\<exists>x. h_adaptiveSubdivision ps g = Some x \<and>
            result_values x = the (adaptiveSubdivision (values_of h ps)) \<and> extends_heap g x"
      by auto
  qed (rule extends_heap_le)
  have sc: "map_option catmull_values (second_run (\<lambda>g. Some (h_cubicCatmullRomSpline ps kp g)) h)
      = Some (catmull_values (h_cubicCatmullRomSpline ps kp h))"
  proof -
    have "map_option catmull_values (second_run (\<lambda>g. Some (h_cubicCatmullRomSpline ps kp g)) h)
          = map_option catmull_values (Some (h_cubicCatmullRomSpline ps kp h))"
    proof (rule second_run_same[where pure = "cubicCatmullRomSpline (values_of h ps) kp"
              and ext = catmull_extends_heap])
      fix g assume "heap_le h g"
      from later[OF this] h_cubicCatmullRomSpline_refines[of g ps kp]
      show "\<exists>x. Some (h_cubicCatmullRomSpline ps kp g) = Some x \<and>
              catmull_values x = cubicCatmullRomSpline (values_of h ps) kp \<and>
              catmull_extends_heap g x"
        by simp
    qed (rule catmull_extends_heap_le)
    then show ?thesis by simp
  qed
  from b u q a1 a2 c fb fu fq a3 fc sb su sq sa sc show ?thesis by (intro conjI)
qed

theorem evaluators_deterministic_witness:
  "valid_refs [Vec3 0 0 0, Vec3 3 0 0, Vec3 3 4 0, Vec3 0 4 0] [0, 1, 2, 3] \<and>
   valid_refs [Vec3 9 9 9, Vec3 0 4 0, Vec3 3 4 0, Vec3 3 0 0, Vec3 0 0 0] [4, 3, 2, 1] \<and>
   values_of [Vec3 0 0 0, Vec3 3 0 0, Vec3 3 4 0, Vec3 0 4 0] [0, 1, 2, 3]
     = values_of [Vec3 9 9 9, Vec3 0 4 0, Vec3 3 4 0, Vec3 3 0 0, Vec3 0 0 0] [4, 3, 2, 1] \<and>
   result_values (h_evaluateBezierCurve [0, 1, 2, 3] [0, 1 / 2, 1]
       [Vec3 0 0 0, Vec3 3 0 0, Vec3 3 4 0, Vec3 0 4 0])
     = result_values (h_evaluateBezierCurve [4, 3, 2, 1] [0, 1 / 2, 1]
       [Vec3 9 9 9, Vec3 0 4 0, Vec3 3 4 0, Vec3 3 0 0, Vec3 0 0 0]) \<and>
   h_adaptiveSubdivision [0, 1, 2, 3] [Vec3 0 0 0, Vec3 3 0 0, Vec3 3 4 0, Vec3 0 4 0] \<noteq> None \<and>
   map_option result_values
       (h_adaptiveSubdivision [0, 1, 2, 3] [Vec3 0 0 0, Vec3 3 0 0, Vec3 3 4 0, Vec3 0 4 0])
     = map_option result_values
       (h_adaptiveSubdivision [4, 3, 2, 1] [Vec3 9 9 9, Vec3 0 4 0, Vec3 3 4 0, Vec3 3 0 0, Vec3 0 0 0]) \<and>
   map_option result_values
       (second_run (h_adaptiveSubdivision [0, 1, 2, 3])
          [Vec3 0 0 0, Vec3 3 0 0, Vec3 3 4 0, Vec3 0 4 0])
     = map_option result_values
       (h_adaptiveSubdivision [0, 1, 2, 3] [Vec3 0 0 0, Vec3 3 0 0, Vec3 3 4 0, Vec3 0 4 0])"
proof -
  have v: "valid_refs [Vec3 0 0 0, Vec3 3 0 0, Vec3 3 4 0, Vec3 0 4 0] [0, 1, 2, 3]"
    "valid_refs [Vec3 9 9 9, Vec3 0 4 0, Vec3 3 4 0, Vec3 3 0 0, Vec3 0 0 0] [4, 3, 2, 1]"
    "values_of [Vec3 0 0 0, Vec3 3 0 0, Vec3 3 4 0, Vec3 0 4 0] [0, 1, 2, 3]
     = values_of [Vec3 9 9 9, Vec3 0 4 0, Vec3 3 4 0, Vec3 3 0 0, Vec3 0 0 0] [4, 3, 2, 1]"
    by simp_all
  from evaluators_deterministic[OF v, of "[0, 1 / 2, 1]"] v show ?thesis by blast
qed

end
